theory Spec2Isabelle
  imports Main "HOL-Library.Multiset"
begin

section \<open>Data model (models.py)\<close>

text \<open>
  The tables of \<^verbatim>\<open>models.py\<close> are lists of rows, so that a duplicated row can be
  written down and its absence is something to prove. Python integers are \<open>int\<close>;
  a \<^verbatim>\<open>DateTime\<close> column is a point on an integer time line. Columns that no
  handler's control flow reads are left out (email, names, password hash, bio,
  pictures, subtitle, cover image, \<^verbatim>\<open>date_updated\<close>, \<^verbatim>\<open>date_joined\<close>).
  Record fields are global names, so the columns \<^verbatim>\<open>id\<close>, \<^verbatim>\<open>user_id\<close>,
  \<^verbatim>\<open>date_created\<close> and \<^verbatim>\<open>content\<close> carry a prefix for their table.
\<close>

type_synonym datetime = int

record user =
  u_id :: int
  username :: string
  is_active :: bool

record blog =
  b_id :: int
  title :: string
  b_content :: string
  is_public :: bool
  is_featured :: bool
  b_date_created :: datetime
  b_user_id :: int

record comment =
  c_id :: int
  c_content :: string
  c_date_created :: datetime
  c_user_id :: int
  c_blog_id :: int

text \<open>The three association tables: \<^verbatim>\<open>followers\<close>, \<^verbatim>\<open>blog_likes\<close>, \<^verbatim>\<open>comment_likes\<close>.\<close>

record follow_row =
  follower_id :: int
  followed_id :: int
  date_followed :: datetime

record blog_like_row =
  bl_user_id :: int
  bl_blog_id :: int
  bl_date_liked :: datetime

record comment_like_row =
  cl_user_id :: int
  cl_comment_id :: int
  cl_date_liked :: datetime

record db =
  users :: "user list"
  blogs :: "blog list"
  comments :: "comment list"
  followers :: "follow_row list"
  blog_likes :: "blog_like_row list"
  comment_likes :: "comment_like_row list"

text \<open>
  \<^verbatim>\<open>current_user\<close> is Flask-Login's anonymous user or a \<^verbatim>\<open>User\<close> row. A caller of
  \<^verbatim>\<open>can_view\<close> may also pass \<^verbatim>\<open>None\<close>, so a viewer is a \<open>principal option\<close>.
  \<^verbatim>\<open>UserMixin.is_authenticated\<close> returns \<^verbatim>\<open>self.is_active\<close>, which for \<^verbatim>\<open>User\<close>
  is the column of that name; the anonymous user is never authenticated.
\<close>

datatype principal = Anonymous | Account user

fun is_authenticated :: "principal \<Rightarrow> bool" where
  "is_authenticated Anonymous = False"
| "is_authenticated (Account u) = is_active u"

datatype error = AttributeError

section \<open>Relationships and queries\<close>

text \<open>
  A \<^verbatim>\<open>lazy='dynamic'\<close> relationship is a query: the target table joined with the
  association table. The joined rows are kept as pairs, because the methods of
  \<^verbatim>\<open>User\<close> filter them on a column of the association table.
\<close>

definition followed :: "db \<Rightarrow> user \<Rightarrow> (user \<times> follow_row) list" where
  "followed d self =
     [(u, r). u \<leftarrow> users d, r \<leftarrow> followers d,
              follower_id r = u_id self \<and> followed_id r = u_id u]"

text \<open>The backref \<^verbatim>\<open>User.followers\<close> (named apart from the table).\<close>

definition user_followers :: "db \<Rightarrow> user \<Rightarrow> (user \<times> follow_row) list" where
  "user_followers d self =
     [(u, r). u \<leftarrow> users d, r \<leftarrow> followers d,
              followed_id r = u_id self \<and> follower_id r = u_id u]"

definition liked_blogs :: "db \<Rightarrow> user \<Rightarrow> (blog \<times> blog_like_row) list" where
  "liked_blogs d self =
     [(b, r). b \<leftarrow> blogs d, r \<leftarrow> blog_likes d,
              bl_user_id r = u_id self \<and> bl_blog_id r = b_id b]"

definition blog_liked_by :: "db \<Rightarrow> blog \<Rightarrow> (user \<times> blog_like_row) list" where
  "blog_liked_by d self =
     [(u, r). u \<leftarrow> users d, r \<leftarrow> blog_likes d,
              bl_blog_id r = b_id self \<and> bl_user_id r = u_id u]"

definition liked_comments :: "db \<Rightarrow> user \<Rightarrow> (comment \<times> comment_like_row) list" where
  "liked_comments d self =
     [(c, r). c \<leftarrow> comments d, r \<leftarrow> comment_likes d,
              cl_user_id r = u_id self \<and> cl_comment_id r = c_id c]"

definition comment_liked_by :: "db \<Rightarrow> comment \<Rightarrow> (user \<times> comment_like_row) list" where
  "comment_liked_by d self =
     [(u, r). u \<leftarrow> users d, r \<leftarrow> comment_likes d,
              cl_comment_id r = c_id self \<and> cl_user_id r = u_id u]"

text \<open>The many-to-one backrefs \<^verbatim>\<open>Blog.author\<close> and \<^verbatim>\<open>Comment.blog\<close>, and \<^verbatim>\<open>Blog.comments\<close>.\<close>

definition author :: "db \<Rightarrow> blog \<Rightarrow> user option" where
  "author d b = find (\<lambda>u. u_id u = b_user_id b) (users d)"

definition comment_blog :: "db \<Rightarrow> comment \<Rightarrow> blog option" where
  "comment_blog d c = find (\<lambda>b. b_id b = c_blog_id c) (blogs d)"

definition blog_comments :: "db \<Rightarrow> blog \<Rightarrow> comment list" where
  "blog_comments d b = [c \<leftarrow> comments d. c_blog_id c = b_id b]"

text \<open>\<^verbatim>\<open>Blog.query.get_or_404\<close> and \<^verbatim>\<open>Comment.query.get_or_404\<close>: \<open>None\<close> is the 404.\<close>

definition get_blog :: "db \<Rightarrow> int \<Rightarrow> blog option" where
  "get_blog d i = find (\<lambda>b. b_id b = i) (blogs d)"

definition get_comment :: "db \<Rightarrow> int \<Rightarrow> comment option" where
  "get_comment d i = find (\<lambda>c. c_id c = i) (comments d)"

section \<open>Social graph (User.follow, User.unfollow, User.is_following)\<close>

definition is_following :: "db \<Rightarrow> user \<Rightarrow> user \<Rightarrow> bool" where
  "is_following d self usr =
     (0 < length [p \<leftarrow> followed d self. followed_id (snd p) = u_id usr])"

text \<open>
  \<^verbatim>\<open>self.followed.append(user)\<close> inserts one row, stamped by the column default;
  \<^verbatim>\<open>self.followed.remove(user)\<close> deletes the rows of that pair.
\<close>

definition follow :: "db \<Rightarrow> datetime \<Rightarrow> user \<Rightarrow> user \<Rightarrow> db" where
  "follow d now self usr =
     (if \<not> is_following d self usr
      then d\<lparr>followers := followers d @
             [\<lparr>follower_id = u_id self, followed_id = u_id usr, date_followed = now\<rparr>]\<rparr>
      else d)"

definition unfollow :: "db \<Rightarrow> user \<Rightarrow> user \<Rightarrow> db" where
  "unfollow d self usr =
     (if is_following d self usr
      then d\<lparr>followers :=
             [r \<leftarrow> followers d. \<not> (follower_id r = u_id self \<and> followed_id r = u_id usr)]\<rparr>
      else d)"

section \<open>Visibility (Blog.can_view)\<close>

text \<open>
  The branches of \<^verbatim>\<open>can_view\<close> in the source's order. \<^verbatim>\<open>self.author\<close> is only
  evaluated in the last test; when the author row is missing it is \<^verbatim>\<open>None\<close> and
  \<^verbatim>\<open>is_following\<close> raises on \<^verbatim>\<open>user.id\<close>.
\<close>

definition can_view :: "db \<Rightarrow> blog \<Rightarrow> principal option \<Rightarrow> error + bool" where
  "can_view d self usr =
     (if is_public self then Inr True
      else (case usr of
              None \<Rightarrow> Inr False
            | Some Anonymous \<Rightarrow> Inr False
            | Some (Account u) \<Rightarrow>
                if is_authenticated (Account u) then
                  (if u_id u = b_user_id self then Inr True
                   else (case author d self of
                           None \<Rightarrow> Inl AttributeError
                         | Some a \<Rightarrow> if is_following d u a then Inr True else Inr False))
                else Inr False))"

section \<open>Reaction ledger (User.like_blog ... Comment.likes_count)\<close>

definition has_liked_blog :: "db \<Rightarrow> user \<Rightarrow> blog \<Rightarrow> bool" where
  "has_liked_blog d self b =
     (0 < length [p \<leftarrow> liked_blogs d self. bl_blog_id (snd p) = b_id b])"

definition like_blog :: "db \<Rightarrow> datetime \<Rightarrow> user \<Rightarrow> blog \<Rightarrow> db" where
  "like_blog d now self b =
     (if \<not> has_liked_blog d self b
      then d\<lparr>blog_likes := blog_likes d @
             [\<lparr>bl_user_id = u_id self, bl_blog_id = b_id b, bl_date_liked = now\<rparr>]\<rparr>
      else d)"

definition unlike_blog :: "db \<Rightarrow> user \<Rightarrow> blog \<Rightarrow> db" where
  "unlike_blog d self b =
     (if has_liked_blog d self b
      then d\<lparr>blog_likes :=
             [r \<leftarrow> blog_likes d. \<not> (bl_user_id r = u_id self \<and> bl_blog_id r = b_id b)]\<rparr>
      else d)"

definition has_liked_comment :: "db \<Rightarrow> user \<Rightarrow> comment \<Rightarrow> bool" where
  "has_liked_comment d self c =
     (0 < length [p \<leftarrow> liked_comments d self. cl_comment_id (snd p) = c_id c])"

definition like_comment :: "db \<Rightarrow> datetime \<Rightarrow> user \<Rightarrow> comment \<Rightarrow> db" where
  "like_comment d now self c =
     (if \<not> has_liked_comment d self c
      then d\<lparr>comment_likes := comment_likes d @
             [\<lparr>cl_user_id = u_id self, cl_comment_id = c_id c, cl_date_liked = now\<rparr>]\<rparr>
      else d)"

definition unlike_comment :: "db \<Rightarrow> user \<Rightarrow> comment \<Rightarrow> db" where
  "unlike_comment d self c =
     (if has_liked_comment d self c
      then d\<lparr>comment_likes :=
             [r \<leftarrow> comment_likes d. \<not> (cl_user_id r = u_id self \<and> cl_comment_id r = c_id c)]\<rparr>
      else d)"

text \<open>\<^verbatim>\<open>Blog.likes_count\<close> and \<^verbatim>\<open>Comment.likes_count\<close>: \<^verbatim>\<open>self.liked_by.count()\<close>.\<close>

definition likes_count :: "db \<Rightarrow> blog \<Rightarrow> nat" where
  "likes_count d self = length (blog_liked_by d self)"

definition comment_likes_count :: "db \<Rightarrow> comment \<Rightarrow> nat" where
  "comment_likes_count d self = length (comment_liked_by d self)"

section \<open>The session: inserting and deleting rows\<close>

text \<open>
  An integer primary key left to the store: the new row gets one more than the largest
  id of its table.
\<close>

definition next_id :: "int list \<Rightarrow> int" where
  "next_id ids = fold max ids 0 + 1"

text \<open>
  \<^verbatim>\<open>db.session.delete(comment)\<close> deletes the row and, through the \<^verbatim>\<open>secondary\<close>
  table of \<^verbatim>\<open>liked_comments\<close>/\<^verbatim>\<open>liked_by\<close>, the like rows of that comment.
  \<^verbatim>\<open>db.session.delete(blog)\<close> deletes the row, the like rows of the blog (the
  \<^verbatim>\<open>secondary\<close> table of \<^verbatim>\<open>liked_blogs\<close>/\<^verbatim>\<open>liked_by\<close>) and, by
  \<^verbatim>\<open>cascade='all, delete-orphan'\<close> on \<^verbatim>\<open>Blog.comments\<close>, every comment of the blog
  as \<^verbatim>\<open>session.delete\<close> would.
\<close>

definition session_delete_comment :: "db \<Rightarrow> comment \<Rightarrow> db" where
  "session_delete_comment d c =
     d\<lparr>comments := [x \<leftarrow> comments d. c_id x \<noteq> c_id c],
       comment_likes := [r \<leftarrow> comment_likes d. cl_comment_id r \<noteq> c_id c]\<rparr>"

definition session_delete_blog :: "db \<Rightarrow> blog \<Rightarrow> db" where
  "session_delete_blog d b =
     (let d' = fold (\<lambda>c s. session_delete_comment s c) (blog_comments d b) d
      in d'\<lparr>blogs := [x \<leftarrow> blogs d'. b_id x \<noteq> b_id b],
            blog_likes := [r \<leftarrow> blog_likes d'. bl_blog_id r \<noteq> b_id b]\<rparr>)"

section \<open>Request handlers (app.py)\<close>

text \<open>
  A handler takes the store and the request and returns the store and the response.
  \<^verbatim>\<open>forms.py\<close> is not among the sources: the outcome of \<^verbatim>\<open>validate_on_submit()\<close>
  and the form data are inputs. Of the JSON of \<^verbatim>\<open>add_comment\<close>, the author's name
  and the formatted date are left out.
\<close>

record comment_json =
  cj_id :: int
  cj_content :: string
  cj_likes_count :: int

datatype response =
    Login_required
  | Not_found
  | Json_error string nat
  | Follow_status string nat
  | Like_status string nat
  | Comment_added comment_json
  | Form_errors
  | Comment_deleted
  | Delete_failed
  | Server_error
  | Redirect
  | Rendered

record comment_form =
  cf_valid :: bool
  cf_content :: string

record blog_form =
  bf_valid :: bool
  bf_title :: string
  bf_content :: string
  bf_is_public :: bool

record user_form =
  uf_valid :: bool
  uf_username :: string

text \<open>The decorator \<^verbatim>\<open>@login_required\<close>.\<close>

fun login_required :: "db \<Rightarrow> principal \<Rightarrow> (user \<Rightarrow> db \<times> response) \<Rightarrow> db \<times> response" where
  "login_required d Anonymous view = (d, Login_required)"
| "login_required d (Account u) view =
     (if is_authenticated (Account u) then view u else (d, Login_required))"

definition followers_count :: "db \<Rightarrow> user \<Rightarrow> nat" where
  "followers_count d u = length (user_followers d u)"

text \<open>
  \<^verbatim>\<open>user == current_user\<close> is \<^verbatim>\<open>UserMixin.__eq__\<close>: equality of \<^verbatim>\<open>get_id()\<close>, the
  primary key as a string.
\<close>

definition toggle_follow :: "db \<Rightarrow> datetime \<Rightarrow> principal \<Rightarrow> string \<Rightarrow> db \<times> response" where
  "toggle_follow d now current_user name =
     login_required d current_user (\<lambda>me.
       case find (\<lambda>u. username u = name) (users d) of
         None \<Rightarrow> (d, Json_error ''User not found'' 404)
       | Some usr \<Rightarrow>
           if u_id usr = u_id me then (d, Json_error ''You cannot follow yourself'' 400)
           else if is_following d me usr then
             (let d' = unfollow d me usr
              in (d', Follow_status ''unfollowed'' (followers_count d' usr)))
           else
             (let d' = follow d now me usr
              in (d', Follow_status ''followed'' (followers_count d' usr))))"

definition toggle_like_blog :: "db \<Rightarrow> datetime \<Rightarrow> principal \<Rightarrow> int \<Rightarrow> db \<times> response" where
  "toggle_like_blog d now current_user i =
     login_required d current_user (\<lambda>me.
       case get_blog d i of
         None \<Rightarrow> (d, Not_found)
       | Some b \<Rightarrow>
           if has_liked_blog d me b then
             (let d' = unlike_blog d me b
              in (d', Like_status ''unliked'' (likes_count d' b)))
           else
             (let d' = like_blog d now me b
              in (d', Like_status ''liked'' (likes_count d' b))))"

definition toggle_like_comment :: "db \<Rightarrow> datetime \<Rightarrow> principal \<Rightarrow> int \<Rightarrow> db \<times> response" where
  "toggle_like_comment d now current_user i =
     login_required d current_user (\<lambda>me.
       case get_comment d i of
         None \<Rightarrow> (d, Not_found)
       | Some c \<Rightarrow>
           if has_liked_comment d me c then
             (let d' = unlike_comment d me c
              in (d', Like_status ''unliked'' (comment_likes_count d' c)))
           else
             (let d' = like_comment d now me c
              in (d', Like_status ''liked'' (comment_likes_count d' c))))"

definition add_comment ::
  "db \<Rightarrow> datetime \<Rightarrow> principal \<Rightarrow> int \<Rightarrow> comment_form \<Rightarrow> db \<times> response" where
  "add_comment d now current_user blog_id form =
     login_required d current_user (\<lambda>me.
       case get_blog d blog_id of
         None \<Rightarrow> (d, Not_found)
       | Some b \<Rightarrow>
           if cf_valid form then
             (let c = \<lparr>c_id = next_id (map c_id (comments d)), c_content = cf_content form,
                       c_date_created = now, c_user_id = u_id me, c_blog_id = b_id b\<rparr>
              in (d\<lparr>comments := comments d @ [c]\<rparr>,
                  Comment_added \<lparr>cj_id = c_id c, cj_content = c_content c,
                                 cj_likes_count = 0\<rparr>))
           else (d, Form_errors))"

text \<open>
  \<^verbatim>\<open>delete_comment\<close>: the second test of the \<^verbatim>\<open>and\<close> reads \<^verbatim>\<open>comment.blog\<close> only
  when the first holds; a missing blog row is an exception outside the \<^verbatim>\<open>try\<close>.
  \<open>commit_ok\<close> says whether the store accepts the delete; when it does not, the
  \<^verbatim>\<open>except\<close> branch rolls back.
\<close>

definition delete_comment :: "db \<Rightarrow> bool \<Rightarrow> principal \<Rightarrow> int \<Rightarrow> db \<times> response" where
  "delete_comment d commit_ok current_user i =
     login_required d current_user (\<lambda>me.
       case get_comment d i of
         None \<Rightarrow> (d, Not_found)
       | Some c \<Rightarrow>
           if u_id me \<noteq> c_user_id c then
             (case comment_blog d c of
                None \<Rightarrow> (d, Server_error)
              | Some b \<Rightarrow>
                  if u_id me \<noteq> b_user_id b then (d, Json_error ''Unauthorized'' 403)
                  else if commit_ok then (session_delete_comment d c, Comment_deleted)
                  else (d, Delete_failed))
           else if commit_ok then (session_delete_comment d c, Comment_deleted)
           else (d, Delete_failed))"

text \<open>\<^verbatim>\<open>blog.author != current_user\<close> holds when the author row is missing.\<close>

definition is_author :: "db \<Rightarrow> blog \<Rightarrow> user \<Rightarrow> bool" where
  "is_author d b me = (case author d b of None \<Rightarrow> False | Some a \<Rightarrow> u_id a = u_id me)"

definition delete_blog :: "db \<Rightarrow> principal \<Rightarrow> int \<Rightarrow> db \<times> response" where
  "delete_blog d current_user i =
     login_required d current_user (\<lambda>me.
       case get_blog d i of
         None \<Rightarrow> (d, Not_found)
       | Some b \<Rightarrow>
           if \<not> is_author d b me then (d, Redirect)
           else (session_delete_blog d b, Redirect))"

definition create_blog :: "db \<Rightarrow> datetime \<Rightarrow> principal \<Rightarrow> blog_form \<Rightarrow> db \<times> response" where
  "create_blog d now current_user form =
     login_required d current_user (\<lambda>me.
       if bf_valid form then
         (d\<lparr>blogs := blogs d @
              [\<lparr>b_id = next_id (map b_id (blogs d)), title = bf_title form,
                b_content = bf_content form, is_public = bf_is_public form,
                is_featured = False, b_date_created = now, b_user_id = u_id me\<rparr>]\<rparr>,
          Redirect)
       else (d, Rendered))"

definition edit_blog :: "db \<Rightarrow> principal \<Rightarrow> int \<Rightarrow> blog_form \<Rightarrow> db \<times> response" where
  "edit_blog d current_user i form =
     login_required d current_user (\<lambda>me.
       case get_blog d i of
         None \<Rightarrow> (d, Not_found)
       | Some b \<Rightarrow>
           if \<not> is_author d b me then (d, Redirect)
           else if bf_valid form then
             (d\<lparr>blogs := map (\<lambda>x. if b_id x = b_id b
                                     then x\<lparr>title := bf_title form, b_content := bf_content form,
                                            is_public := bf_is_public form\<rparr>
                                     else x) (blogs d)\<rparr>,
              Redirect)
           else (d, Rendered))"

text \<open>
  \<^verbatim>\<open>register\<close> and \<^verbatim>\<open>edit_profile\<close>: \<^verbatim>\<open>username\<close> is a unique column, so a commit
  that would repeat a name raises and nothing is stored.
\<close>

definition register :: "db \<Rightarrow> principal \<Rightarrow> user_form \<Rightarrow> db \<times> response" where
  "register d current_user form =
     (if is_authenticated current_user then (d, Redirect)
      else if uf_valid form then
        (if uf_username form \<in> set (map username (users d)) then (d, Server_error)
         else (d\<lparr>users := users d @
                 [\<lparr>u_id = next_id (map u_id (users d)), username = uf_username form,
                   is_active = True\<rparr>]\<rparr>,
               Redirect))
      else (d, Rendered))"

definition edit_profile :: "db \<Rightarrow> principal \<Rightarrow> user_form \<Rightarrow> db \<times> response" where
  "edit_profile d current_user form =
     login_required d current_user (\<lambda>me.
       if uf_valid form then
         (if uf_username form \<in> set (map username [u \<leftarrow> users d. u_id u \<noteq> u_id me])
          then (d, Server_error)
          else (d\<lparr>users := map (\<lambda>u. if u_id u = u_id me
                                      then u\<lparr>username := uf_username form\<rparr> else u)
                                (users d)\<rparr>,
                Redirect))
       else (d, Rendered))"

section \<open>Feed composition (index)\<close>

text \<open>
  \<^verbatim>\<open>order_by(Blog.date_created.desc())\<close> and \<^verbatim>\<open>sort(key=..., reverse=True)\<close>: a stable
  sort, newest first (for the query, rows of equal date stay in table order).
  \<open>list_of_set\<close> is the order in which Python iterates over \<^verbatim>\<open>set(...)\<close>; it is an
  input of the handler.
\<close>

definition date_desc :: "blog list \<Rightarrow> blog list" where
  "date_desc bs = sort_key (\<lambda>b. - b_date_created b) bs"

definition index ::
  "db \<Rightarrow> (blog list \<Rightarrow> blog list) \<Rightarrow> principal \<Rightarrow> blog list \<times> blog list" where
  "index d list_of_set current_user =
     (let featured_blogs = date_desc [b \<leftarrow> blogs d. is_featured b \<and> is_public b];
          recent_blogs = take 6 (date_desc [b \<leftarrow> blogs d. is_public b])
      in case current_user of
           Anonymous \<Rightarrow> (featured_blogs, recent_blogs)
         | Account me \<Rightarrow>
             if is_authenticated (Account me) then
               (let followed_users = map fst (followed d me);
                    followed_ids = map u_id followed_users @ [u_id me];
                    follower_blogs =
                      take 3 (date_desc [b \<leftarrow> blogs d.
                                           b_user_id b \<in> set followed_ids \<and> \<not> is_public b]);
                    all_blogs = date_desc (list_of_set (recent_blogs @ follower_blogs))
                in (featured_blogs, take 6 all_blogs))
             else (featured_blogs, recent_blogs))"

text \<open>
  The recent feed as the specification words it: the public posts and the private posts
  authored by the viewer or by a user the viewer follows, without duplicates, newest
  first, cut to 6.
\<close>

definition visible_private :: "db \<Rightarrow> user \<Rightarrow> blog \<Rightarrow> bool" where
  "visible_private d v b =
     (\<not> is_public b \<and>
      (b_user_id b = u_id v \<or>
       (case author d b of None \<Rightarrow> False | Some a \<Rightarrow> is_following d v a)))"

definition spec_recent :: "db \<Rightarrow> user \<Rightarrow> blog list" where
  "spec_recent d v =
     take 6 (date_desc (remdups [b \<leftarrow> blogs d. is_public b \<or> visible_private d v b]))"

section \<open>Reachable stores\<close>

text \<open>
  The requests that change the store. \<^verbatim>\<open>load_user\<close> reads \<^verbatim>\<open>current_user\<close> from
  the \<^verbatim>\<open>users\<close> table, so the caller of a request is anonymous or a stored row.
\<close>

datatype request =
    Register user_form
  | Edit_profile user_form
  | Create_blog datetime blog_form
  | Edit_blog int blog_form
  | Delete_blog int
  | Toggle_follow datetime string
  | Toggle_like_blog datetime int
  | Toggle_like_comment datetime int
  | Add_comment datetime int comment_form
  | Delete_comment bool int

fun handle :: "db \<Rightarrow> principal \<Rightarrow> request \<Rightarrow> db \<times> response" where
  "handle d cu (Register f) = register d cu f"
| "handle d cu (Edit_profile f) = edit_profile d cu f"
| "handle d cu (Create_blog now f) = create_blog d now cu f"
| "handle d cu (Edit_blog i f) = edit_blog d cu i f"
| "handle d cu (Delete_blog i) = delete_blog d cu i"
| "handle d cu (Toggle_follow now name) = toggle_follow d now cu name"
| "handle d cu (Toggle_like_blog now i) = toggle_like_blog d now cu i"
| "handle d cu (Toggle_like_comment now i) = toggle_like_comment d now cu i"
| "handle d cu (Add_comment now i f) = add_comment d now cu i f"
| "handle d cu (Delete_comment ok i) = delete_comment d ok cu i"

fun session_user :: "db \<Rightarrow> principal \<Rightarrow> bool" where
  "session_user d Anonymous = True"
| "session_user d (Account u) = (u \<in> set (users d))"

definition empty_db :: db where
  "empty_db = \<lparr>users = [], blogs = [], comments = [], followers = [], blog_likes = [],
               comment_likes = []\<rparr>"

inductive reachable :: "db \<Rightarrow> bool" where
  init: "reachable empty_db"
| step: "reachable d \<Longrightarrow> session_user d cu \<Longrightarrow> reachable (fst (handle d cu rq))"

section \<open>Primary keys of the association tables\<close>

definition follow_key :: "follow_row \<Rightarrow> int \<times> int" where
  "follow_key r = (follower_id r, followed_id r)"

definition blog_like_key :: "blog_like_row \<Rightarrow> int \<times> int" where
  "blog_like_key r = (bl_user_id r, bl_blog_id r)"

definition comment_like_key :: "comment_like_row \<Rightarrow> int \<times> int" where
  "comment_like_key r = (cl_user_id r, cl_comment_id r)"

section \<open>The schema's keys as an invariant\<close>

text \<open>
  The primary keys of \<^verbatim>\<open>models.py\<close> (\<^verbatim>\<open>id\<close> of the three entity tables, the
  column pair of the three association tables) and its foreign keys.
\<close>

definition keys_ok :: "db \<Rightarrow> bool" where
  "keys_ok d \<longleftrightarrow>
     distinct (map u_id (users d)) \<and>
     distinct (map b_id (blogs d)) \<and>
     distinct (map c_id (comments d)) \<and>
     distinct (map follow_key (followers d)) \<and>
     distinct (map blog_like_key (blog_likes d)) \<and>
     distinct (map comment_like_key (comment_likes d))"

definition refs_ok :: "db \<Rightarrow> bool" where
  "refs_ok d \<longleftrightarrow>
     b_user_id ` set (blogs d) \<subseteq> u_id ` set (users d) \<and>
     c_user_id ` set (comments d) \<subseteq> u_id ` set (users d) \<and>
     c_blog_id ` set (comments d) \<subseteq> b_id ` set (blogs d) \<and>
     follower_id ` set (followers d) \<subseteq> u_id ` set (users d) \<and>
     followed_id ` set (followers d) \<subseteq> u_id ` set (users d) \<and>
     bl_user_id ` set (blog_likes d) \<subseteq> u_id ` set (users d) \<and>
     bl_blog_id ` set (blog_likes d) \<subseteq> b_id ` set (blogs d) \<and>
     cl_user_id ` set (comment_likes d) \<subseteq> u_id ` set (users d) \<and>
     cl_comment_id ` set (comment_likes d) \<subseteq> c_id ` set (comments d)"

definition integrity :: "db \<Rightarrow> bool" where
  "integrity d \<longleftrightarrow> keys_ok d \<and> refs_ok d"

text \<open>The ids of the users that hold a like edge to a post, or to a comment.\<close>

definition blog_likers :: "db \<Rightarrow> blog \<Rightarrow> int set" where
  "blog_likers d b = set (map bl_user_id [r \<leftarrow> blog_likes d. bl_blog_id r = b_id b])"

definition comment_likers :: "db \<Rightarrow> comment \<Rightarrow> int set" where
  "comment_likers d c =
     set (map cl_user_id [r \<leftarrow> comment_likes d. cl_comment_id r = c_id c])"

section \<open>Example store\<close>

definition alice :: user where
  "alice = \<lparr>u_id = 1, username = ''alice'', is_active = True\<rparr>"

definition bob :: user where
  "bob = \<lparr>u_id = 2, username = ''bob'', is_active = True\<rparr>"

definition carol :: user where
  "carol = \<lparr>u_id = 3, username = ''carol'', is_active = True\<rparr>"

definition mk_blog :: "int \<Rightarrow> bool \<Rightarrow> datetime \<Rightarrow> int \<Rightarrow> blog" where
  "mk_blog i pub t uid =
     \<lparr>b_id = i, title = ''t'', b_content = ''c'', is_public = pub, is_featured = False,
      b_date_created = t, b_user_id = uid\<rparr>"

definition db1 :: db where
  "db1 = \<lparr>users = [alice, bob, carol],
          blogs = [mk_blog 1 False 10 1],
          comments = [],
          followers = [\<lparr>follower_id = 2, followed_id = 1, date_followed = 5\<rparr>],
          blog_likes = [],
          comment_likes = []\<rparr>"

definition blog1 :: blog where
  "blog1 = mk_blog 1 False 10 1"

definition comment1 :: comment where
  "comment1 = \<lparr>c_id = 1, c_content = ''hello'', c_date_created = 12, c_user_id = 2,
               c_blog_id = 1\<rparr>"

definition db3 :: db where
  "db3 = \<lparr>users = [alice, bob, carol],
          blogs = [blog1, mk_blog 2 True 20 2],
          comments = [comment1],
          followers = [\<lparr>follower_id = 2, followed_id = 1, date_followed = 5\<rparr>,
                       \<lparr>follower_id = 3, followed_id = 1, date_followed = 6\<rparr>],
          blog_likes = [\<lparr>bl_user_id = 3, bl_blog_id = 1, bl_date_liked = 11\<rparr>,
                        \<lparr>bl_user_id = 2, bl_blog_id = 1, bl_date_liked = 13\<rparr>],
          comment_likes = [\<lparr>cl_user_id = 3, cl_comment_id = 1, cl_date_liked = 14\<rparr>]\<rparr>"

text \<open>A store where alice has four private posts and nobody has a public one.\<close>

definition db2 :: db where
  "db2 = \<lparr>users = [alice, bob],
          blogs = [mk_blog 1 False 1 1, mk_blog 2 False 2 1, mk_blog 3 False 3 1,
                   mk_blog 4 False 4 1],
          comments = [], followers = [], blog_likes = [], comment_likes = []\<rparr>"

text \<open>A store built by requests: alice registers, writes a private post and likes it.\<close>

definition db_run :: db where
  "db_run =
     fst (handle
       (fst (handle
         (fst (handle empty_db Anonymous
                 (Register \<lparr>uf_valid = True, uf_username = ''alice''\<rparr>)))
         (Account alice)
         (Create_blog 10 \<lparr>bf_valid = True, bf_title = ''t'', bf_content = ''c'',
                           bf_is_public = False\<rparr>)))
       (Account alice)
       (Toggle_like_blog 11 1))"

section \<open>Facts about the follow table\<close>

lemma is_following_iff:
  "is_following d a b \<longleftrightarrow>
     (\<exists>r \<in> set (followers d). follower_id r = u_id a \<and> followed_id r = u_id b) \<and>
     (\<exists>u \<in> set (users d). u_id u = u_id b)"
  unfolding is_following_def followed_def length_greater_0_conv filter_empty_conv
  by (simp add: Bex_def) metis

lemma follower_fields [simp]:
  "followers (follow d now a b) =
     (if is_following d a b then followers d
      else followers d @ [\<lparr>follower_id = u_id a, followed_id = u_id b, date_followed = now\<rparr>])"
  "users (follow d now a b) = users d"
  "blogs (follow d now a b) = blogs d"
  "comments (follow d now a b) = comments d"
  "blog_likes (follow d now a b) = blog_likes d"
  "comment_likes (follow d now a b) = comment_likes d"
  by (simp_all add: follow_def)

lemma unfollow_fields [simp]:
  "followers (unfollow d a b) =
     (if is_following d a b
      then [r \<leftarrow> followers d. \<not> (follower_id r = u_id a \<and> followed_id r = u_id b)]
      else followers d)"
  "users (unfollow d a b) = users d"
  "blogs (unfollow d a b) = blogs d"
  "comments (unfollow d a b) = comments d"
  "blog_likes (unfollow d a b) = blog_likes d"
  "comment_likes (unfollow d a b) = comment_likes d"
  by (simp_all add: unfollow_def)

lemma filter_key_single:
  "distinct (map f xs) \<Longrightarrow> x \<in> set xs \<Longrightarrow> [y \<leftarrow> xs. f y = f x] = [x]"
proof (induction xs)
  case Nil
  then show ?case by simp
next
  case (Cons z zs)
  show ?case
  proof (cases "z = x")
    case True
    with Cons.prems have "\<forall>y \<in> set zs. f y \<noteq> f x" by (auto simp: image_iff)
    then have "[y \<leftarrow> zs. f y = f x] = []" by (simp add: filter_empty_conv)
    with True show ?thesis by simp
  next
    case False
    with Cons.prems have "x \<in> set zs" "f z \<noteq> f x" by auto
    with Cons show ?thesis by simp
  qed
qed

lemma is_following_follow:
  assumes "\<exists>u \<in> set (users d). u_id u = u_id b"
  shows "is_following (follow d now a b) a b"
  using assms by (auto simp: is_following_iff)

lemma follow_twice:
  assumes "\<exists>u \<in> set (users d). u_id u = u_id b"
  shows "follow (follow d now a b) now' a b = follow d now a b"
  using is_following_follow [OF assms] by (simp add: follow_def)

lemma follow_count:
  assumes "\<exists>u \<in> set (users d). u_id u = u_id b" "distinct (map follow_key (followers d))"
  shows "length [r \<leftarrow> followers (follow d now a b). follow_key r = (u_id a, u_id b)] = 1"
proof (cases "is_following d a b")
  case True
  then obtain r where r: "r \<in> set (followers d)" "follow_key r = (u_id a, u_id b)"
    by (auto simp: is_following_iff follow_key_def)
  have "[x \<leftarrow> followers d. follow_key x = (u_id a, u_id b)] = [r]"
    using filter_key_single [OF assms(2) r(1)] r(2) by simp
  then show ?thesis using True by simp
next
  case False
  then have "[r \<leftarrow> followers d. follow_key r = (u_id a, u_id b)] = []"
    using assms(1) by (auto simp: is_following_iff follow_key_def filter_empty_conv)
  then show ?thesis using False by (simp add: follow_key_def)
qed

lemma follow_distinct:
  assumes "u_id b \<in> set (map u_id (users d))" "distinct (map follow_key (followers d))"
  shows "distinct (map follow_key (followers (follow d now a b)))"
proof (cases "is_following d a b")
  case True
  then show ?thesis using assms by simp
next
  case False
  then have "(u_id a, u_id b) \<notin> set (map follow_key (followers d))"
    using assms(1) by (auto simp: is_following_iff follow_key_def)
  then show ?thesis using False assms(2) by (simp add: follow_key_def)
qed

section \<open>Facts about the like tables\<close>

text \<open>The length of a join, counted row by row of the association table.\<close>

lemma join_length:
  "length (concat (map (\<lambda>u. concat (map (\<lambda>r. if P u r then [(u, r)] else []) rs)) us)) =
     (\<Sum>r\<leftarrow>rs. length [u \<leftarrow> us. P u r])"
proof (induction us)
  case Nil
  then show ?case by simp
next
  case (Cons a us)
  have "length (concat (map (\<lambda>r. if P a r then [(a, r)] else []) rs)) =
          (\<Sum>r\<leftarrow>rs. if P a r then 1 else 0)"
    by (induction rs) simp_all
  moreover have "(\<Sum>r\<leftarrow>rs. length [u \<leftarrow> a # us. P u r]) =
      (\<Sum>r\<leftarrow>rs. if P a r then 1 else 0) + (\<Sum>r\<leftarrow>rs. length [u \<leftarrow> us. P u r])"
    by (induction rs) simp_all
  ultimately show ?case using Cons by simp
qed

lemma has_liked_blog_iff:
  "has_liked_blog d u b \<longleftrightarrow>
     (\<exists>r \<in> set (blog_likes d). bl_user_id r = u_id u \<and> bl_blog_id r = b_id b) \<and>
     (\<exists>x \<in> set (blogs d). b_id x = b_id b)"
  unfolding has_liked_blog_def liked_blogs_def length_greater_0_conv filter_empty_conv
  by (simp add: Bex_def) metis

lemma has_liked_comment_iff:
  "has_liked_comment d u c \<longleftrightarrow>
     (\<exists>r \<in> set (comment_likes d). cl_user_id r = u_id u \<and> cl_comment_id r = c_id c) \<and>
     (\<exists>x \<in> set (comments d). c_id x = c_id c)"
  unfolding has_liked_comment_def liked_comments_def length_greater_0_conv filter_empty_conv
  by (simp add: Bex_def) metis

lemma likes_count_sum:
  "likes_count d b =
     (\<Sum>r\<leftarrow>blog_likes d. length [u \<leftarrow> users d. bl_blog_id r = b_id b \<and> bl_user_id r = u_id u])"
  by (simp add: likes_count_def blog_liked_by_def join_length)

lemma comment_likes_count_sum:
  "comment_likes_count d c =
     (\<Sum>r\<leftarrow>comment_likes d.
        length [u \<leftarrow> users d. cl_comment_id r = c_id c \<and> cl_user_id r = u_id u])"
  by (simp add: comment_likes_count_def comment_liked_by_def join_length)

lemma find_Some_set: "find P xs = Some x \<Longrightarrow> x \<in> set xs \<and> P x"
  by (auto simp: find_Some_iff)

text \<open>Removing the row of a key and appending a row of the same key.\<close>

lemma replace_row:
  assumes "distinct (map key rs)" "r \<in> set rs" "key r' = key r"
  shows "set (map key ([x \<leftarrow> rs. key x \<noteq> key r] @ [r'])) = set (map key rs)"
    and "(\<Sum>x\<leftarrow>[x \<leftarrow> rs. key x \<noteq> key r] @ [r']. (g (key x) :: nat)) = (\<Sum>x\<leftarrow>rs. g (key x))"
proof -
  obtain ys zs where split: "rs = ys @ r # zs"
    using assms(2) by (auto dest: split_list)
  have "\<forall>y \<in> set ys \<union> set zs. key y \<noteq> key r"
    using assms(1) by (auto simp: split image_iff)
  then have f: "[x \<leftarrow> rs. key x \<noteq> key r] = ys @ zs"
    by (simp add: split filter_id_conv)
  show "set (map key ([x \<leftarrow> rs. key x \<noteq> key r] @ [r'])) = set (map key rs)"
    unfolding f using assms(3) by (auto simp: split)
  show "(\<Sum>x\<leftarrow>[x \<leftarrow> rs. key x \<noteq> key r] @ [r']. g (key x)) = (\<Sum>x\<leftarrow>rs. g (key x))"
    unfolding f using assms(3) by (simp add: split)
qed

lemma toggle_like_blog_twice:
  assumes auth: "is_authenticated (Account me)"
    and dist: "distinct (map blog_like_key (blog_likes d))"
  shows "has_liked_blog (fst (toggle_like_blog (fst (toggle_like_blog d t1 (Account me) i))
             t2 (Account me) i)) u' b' = has_liked_blog d u' b'
       \<and> likes_count (fst (toggle_like_blog (fst (toggle_like_blog d t1 (Account me) i))
             t2 (Account me) i)) b' = likes_count d b'
       \<and> (\<forall>b. get_blog d i = Some b \<longrightarrow>
            has_liked_blog (fst (toggle_like_blog d t1 (Account me) i)) me b
              \<noteq> has_liked_blog d me b)"
proof -
  define d1 where "d1 = fst (toggle_like_blog d t1 (Account me) i)"
  define d2 where "d2 = fst (toggle_like_blog d1 t2 (Account me) i)"
  have goal: "has_liked_blog d2 u' b' = has_liked_blog d u' b' \<and>
      likes_count d2 b' = likes_count d b' \<and>
      (\<forall>b. get_blog d i = Some b \<longrightarrow> has_liked_blog d1 me b \<noteq> has_liked_blog d me b)"
  proof (cases "get_blog d i")
    case None
    then show ?thesis using auth by (simp add: d1_def d2_def toggle_like_blog_def)
  next
    case (Some b)
    then have bx: "\<exists>x \<in> set (blogs d). b_id x = b_id b"
      by (auto simp: get_blog_def dest: find_Some_set)
    define k where "k = (u_id me, b_id b)"
    define r' where "r' = \<lparr>bl_user_id = u_id me, bl_blog_id = b_id b, bl_date_liked = t2\<rparr>"
    have pred: "[r \<leftarrow> rs. \<not> (bl_user_id r = u_id me \<and> bl_blog_id r = b_id b)] =
        [r \<leftarrow> rs. blog_like_key r \<noteq> k]" for rs
      by (simp add: blog_like_key_def k_def)
    show ?thesis
    proof (cases "has_liked_blog d me b")
      case True
      then obtain r where r: "r \<in> set (blog_likes d)" "blog_like_key r = k"
        by (auto simp: has_liked_blog_iff blog_like_key_def k_def)
      have d1: "d1 = unlike_blog d me b"
        using auth Some True by (simp add: d1_def toggle_like_blog_def Let_def)
      have l1: "blog_likes d1 = [x \<leftarrow> blog_likes d. blog_like_key x \<noteq> k]"
        and o1: "users d1 = users d" "blogs d1 = blogs d"
        using True unfolding d1 unlike_blog_def pred by simp_all
      have n1: "\<not> has_liked_blog d1 me b"
        by (auto simp: has_liked_blog_iff l1 blog_like_key_def k_def)
      have g1: "get_blog d1 i = Some b"
        using Some by (simp add: get_blog_def o1)
      have d2: "d2 = like_blog d1 t2 me b"
        using auth g1 n1 by (simp add: d2_def toggle_like_blog_def Let_def)
      have l2: "blog_likes d2 = [x \<leftarrow> blog_likes d. blog_like_key x \<noteq> blog_like_key r] @ [r']"
        and o2: "users d2 = users d" "blogs d2 = blogs d"
        using n1 by (simp_all add: d2 like_blog_def l1 o1 r'_def r)
      have kr: "blog_like_key r' = blog_like_key r"
        using r(2) by (simp add: r'_def blog_like_key_def k_def)
      have keys: "set (map blog_like_key (blog_likes d2)) = set (map blog_like_key (blog_likes d))"
        unfolding l2 by (rule replace_row(1) [OF dist r(1) kr])
      have hl: "has_liked_blog e u' b' \<longleftrightarrow>
          (u_id u', b_id b') \<in> set (map blog_like_key (blog_likes e)) \<and>
          (\<exists>x \<in> set (blogs e). b_id x = b_id b')" for e
        unfolding has_liked_blog_iff by (simp add: blog_like_key_def image_iff) metis
      have a: "has_liked_blog d2 u' b' = has_liked_blog d u' b'"
        unfolding hl keys o2 ..
      have lc: "likes_count e b' =
          (\<Sum>x\<leftarrow>blog_likes e.
             (\<lambda>q. length [u \<leftarrow> users e. snd q = b_id b' \<and> fst q = u_id u]) (blog_like_key x))" for e
        by (simp add: likes_count_sum blog_like_key_def)
      have b: "likes_count d2 b' = likes_count d b'"
        unfolding lc l2 o2 by (rule replace_row(2) [OF dist r(1) kr])
      show ?thesis using a b Some True n1 by simp
    next
      case False
      then have nokey: "\<forall>x \<in> set (blog_likes d). blog_like_key x \<noteq> k"
        using bx by (auto simp: has_liked_blog_iff blog_like_key_def k_def)
      have d1: "d1 = like_blog d t1 me b"
        using auth Some False by (simp add: d1_def toggle_like_blog_def Let_def)
      have l1: "blog_likes d1 = blog_likes d @
            [\<lparr>bl_user_id = u_id me, bl_blog_id = b_id b, bl_date_liked = t1\<rparr>]"
        and o1: "users d1 = users d" "blogs d1 = blogs d"
        using False by (simp_all add: d1 like_blog_def)
      have y1: "has_liked_blog d1 me b"
        using bx by (auto simp: has_liked_blog_iff l1 o1)
      have g1: "get_blog d1 i = Some b"
        using Some by (simp add: get_blog_def o1)
      have d2: "d2 = unlike_blog d1 me b"
        using auth g1 y1 by (simp add: d2_def toggle_like_blog_def Let_def)
      have l2: "blog_likes d2 = blog_likes d"
        and o2: "users d2 = users d" "blogs d2 = blogs d"
        using y1 nokey unfolding d2 unlike_blog_def pred
        by (simp_all add: l1 o1 blog_like_key_def k_def filter_id_conv)
      have a: "has_liked_blog d2 u' b' = has_liked_blog d u' b'"
        by (simp add: has_liked_blog_iff l2 o2)
      have b: "likes_count d2 b' = likes_count d b'"
        by (simp add: likes_count_sum l2 o2)
      show ?thesis using a b Some False y1 by simp
    qed
  qed
  then show ?thesis unfolding d2_def d1_def .
qed

lemma toggle_like_comment_twice:
  assumes auth: "is_authenticated (Account me)"
    and dist: "distinct (map comment_like_key (comment_likes d))"
  shows "has_liked_comment (fst (toggle_like_comment (fst (toggle_like_comment d t1 (Account me) i))
             t2 (Account me) i)) u' c' = has_liked_comment d u' c'
       \<and> comment_likes_count (fst (toggle_like_comment (fst (toggle_like_comment d t1 (Account me) i))
             t2 (Account me) i)) c' = comment_likes_count d c'
       \<and> (\<forall>c. get_comment d i = Some c \<longrightarrow>
            has_liked_comment (fst (toggle_like_comment d t1 (Account me) i)) me c
              \<noteq> has_liked_comment d me c)"
proof -
  define d1 where "d1 = fst (toggle_like_comment d t1 (Account me) i)"
  define d2 where "d2 = fst (toggle_like_comment d1 t2 (Account me) i)"
  have goal: "has_liked_comment d2 u' c' = has_liked_comment d u' c' \<and>
      comment_likes_count d2 c' = comment_likes_count d c' \<and>
      (\<forall>c. get_comment d i = Some c \<longrightarrow> has_liked_comment d1 me c \<noteq> has_liked_comment d me c)"
  proof (cases "get_comment d i")
    case None
    then show ?thesis using auth by (simp add: d1_def d2_def toggle_like_comment_def)
  next
    case (Some c)
    then have bx: "\<exists>x \<in> set (comments d). c_id x = c_id c"
      by (auto simp: get_comment_def dest: find_Some_set)
    define k where "k = (u_id me, c_id c)"
    define r' where "r' = \<lparr>cl_user_id = u_id me, cl_comment_id = c_id c, cl_date_liked = t2\<rparr>"
    have pred: "[r \<leftarrow> rs. \<not> (cl_user_id r = u_id me \<and> cl_comment_id r = c_id c)] =
        [r \<leftarrow> rs. comment_like_key r \<noteq> k]" for rs
      by (simp add: comment_like_key_def k_def)
    show ?thesis
    proof (cases "has_liked_comment d me c")
      case True
      then obtain r where r: "r \<in> set (comment_likes d)" "comment_like_key r = k"
        by (auto simp: has_liked_comment_iff comment_like_key_def k_def)
      have d1: "d1 = unlike_comment d me c"
        using auth Some True by (simp add: d1_def toggle_like_comment_def Let_def)
      have l1: "comment_likes d1 = [x \<leftarrow> comment_likes d. comment_like_key x \<noteq> k]"
        and o1: "users d1 = users d" "comments d1 = comments d"
        using True unfolding d1 unlike_comment_def pred by simp_all
      have n1: "\<not> has_liked_comment d1 me c"
        by (auto simp: has_liked_comment_iff l1 comment_like_key_def k_def)
      have g1: "get_comment d1 i = Some c"
        using Some by (simp add: get_comment_def o1)
      have d2: "d2 = like_comment d1 t2 me c"
        using auth g1 n1 by (simp add: d2_def toggle_like_comment_def Let_def)
      have l2: "comment_likes d2 = [x \<leftarrow> comment_likes d. comment_like_key x \<noteq> comment_like_key r] @ [r']"
        and o2: "users d2 = users d" "comments d2 = comments d"
        using n1 by (simp_all add: d2 like_comment_def l1 o1 r'_def r)
      have kr: "comment_like_key r' = comment_like_key r"
        using r(2) by (simp add: r'_def comment_like_key_def k_def)
      have keys: "set (map comment_like_key (comment_likes d2)) = set (map comment_like_key (comment_likes d))"
        unfolding l2 by (rule replace_row(1) [OF dist r(1) kr])
      have hl: "has_liked_comment e u' c' \<longleftrightarrow>
          (u_id u', c_id c') \<in> set (map comment_like_key (comment_likes e)) \<and>
          (\<exists>x \<in> set (comments e). c_id x = c_id c')" for e
        unfolding has_liked_comment_iff by (simp add: comment_like_key_def image_iff) metis
      have a: "has_liked_comment d2 u' c' = has_liked_comment d u' c'"
        unfolding hl keys o2 ..
      have lc: "comment_likes_count e c' =
          (\<Sum>x\<leftarrow>comment_likes e.
             (\<lambda>q. length [u \<leftarrow> users e. snd q = c_id c' \<and> fst q = u_id u]) (comment_like_key x))" for e
        by (simp add: comment_likes_count_sum comment_like_key_def)
      have b: "comment_likes_count d2 c' = comment_likes_count d c'"
        unfolding lc l2 o2 by (rule replace_row(2) [OF dist r(1) kr])
      show ?thesis using a b Some True n1 by simp
    next
      case False
      then have nokey: "\<forall>x \<in> set (comment_likes d). comment_like_key x \<noteq> k"
        using bx by (auto simp: has_liked_comment_iff comment_like_key_def k_def)
      have d1: "d1 = like_comment d t1 me c"
        using auth Some False by (simp add: d1_def toggle_like_comment_def Let_def)
      have l1: "comment_likes d1 = comment_likes d @
            [\<lparr>cl_user_id = u_id me, cl_comment_id = c_id c, cl_date_liked = t1\<rparr>]"
        and o1: "users d1 = users d" "comments d1 = comments d"
        using False by (simp_all add: d1 like_comment_def)
      have y1: "has_liked_comment d1 me c"
        using bx by (auto simp: has_liked_comment_iff l1 o1)
      have g1: "get_comment d1 i = Some c"
        using Some by (simp add: get_comment_def o1)
      have d2: "d2 = unlike_comment d1 me c"
        using auth g1 y1 by (simp add: d2_def toggle_like_comment_def Let_def)
      have l2: "comment_likes d2 = comment_likes d"
        and o2: "users d2 = users d" "comments d2 = comments d"
        using y1 nokey unfolding d2 unlike_comment_def pred
        by (simp_all add: l1 o1 comment_like_key_def k_def filter_id_conv)
      have a: "has_liked_comment d2 u' c' = has_liked_comment d u' c'"
        by (simp add: has_liked_comment_iff l2 o2)
      have b: "comment_likes_count d2 c' = comment_likes_count d c'"
        by (simp add: comment_likes_count_sum l2 o2)
      show ?thesis using a b Some False y1 by simp
    qed
  qed
  then show ?thesis unfolding d2_def d1_def .
qed

lemma db3_values:
  "has_liked_blog db3 carol blog1" "likes_count db3 blog1 = 2"
  "has_liked_comment db3 carol comment1" "comment_likes_count db3 comment1 = 1"
  "get_blog db3 1 = Some blog1" "get_comment db3 1 = Some comment1"
  by (simp_all add: has_liked_blog_iff has_liked_comment_iff likes_count_sum
        comment_likes_count_sum get_blog_def get_comment_def db3_def blog1_def comment1_def
        mk_blog_def alice_def bob_def carol_def)


section \<open>Facts about deletion\<close>

lemma session_delete_comment_fields [simp]:
  "comments (session_delete_comment d c) = [x \<leftarrow> comments d. c_id x \<noteq> c_id c]"
  "comment_likes (session_delete_comment d c) =
     [r \<leftarrow> comment_likes d. cl_comment_id r \<noteq> c_id c]"
  "users (session_delete_comment d c) = users d"
  "blogs (session_delete_comment d c) = blogs d"
  "followers (session_delete_comment d c) = followers d"
  "blog_likes (session_delete_comment d c) = blog_likes d"
  by (simp_all add: session_delete_comment_def)

lemma fold_session_delete_comment:
  "comments (fold (\<lambda>c s. session_delete_comment s c) cs d) =
     [x \<leftarrow> comments d. c_id x \<notin> c_id ` set cs]"
  "comment_likes (fold (\<lambda>c s. session_delete_comment s c) cs d) =
     [r \<leftarrow> comment_likes d. cl_comment_id r \<notin> c_id ` set cs]"
  "users (fold (\<lambda>c s. session_delete_comment s c) cs d) = users d"
  "blogs (fold (\<lambda>c s. session_delete_comment s c) cs d) = blogs d"
  "followers (fold (\<lambda>c s. session_delete_comment s c) cs d) = followers d"
  "blog_likes (fold (\<lambda>c s. session_delete_comment s c) cs d) = blog_likes d"
  by (induction cs arbitrary: d) (simp_all add: conj_commute)

lemma session_delete_blog_fields [simp]:
  "blogs (session_delete_blog d b) = [x \<leftarrow> blogs d. b_id x \<noteq> b_id b]"
  "blog_likes (session_delete_blog d b) = [r \<leftarrow> blog_likes d. bl_blog_id r \<noteq> b_id b]"
  "comments (session_delete_blog d b) =
     [x \<leftarrow> comments d. c_id x \<notin> c_id ` set (blog_comments d b)]"
  "comment_likes (session_delete_blog d b) =
     [r \<leftarrow> comment_likes d. cl_comment_id r \<notin> c_id ` set (blog_comments d b)]"
  "users (session_delete_blog d b) = users d"
  "followers (session_delete_blog d b) = followers d"
  by (simp_all add: session_delete_blog_def Let_def fold_session_delete_comment)

section \<open>Facts about the example stores\<close>

lemma db3_author: "is_author db3 blog1 alice"
  by (simp add: is_author_def author_def db3_def blog1_def mk_blog_def alice_def)

lemma db3_get: "get_blog db3 1 = Some blog1" "get_comment db3 1 = Some comment1"
  "comment_blog db3 comment1 = Some blog1"
  by (simp_all add: get_blog_def get_comment_def comment_blog_def db3_def blog1_def
        comment1_def mk_blog_def)

lemma users_active: "is_authenticated (Account alice)" "is_authenticated (Account bob)"
  "is_authenticated (Account carol)"
  by (simp_all add: alice_def bob_def carol_def)


section \<open>Fresh ids\<close>

lemma fold_max_ge: "(a::int) \<le> fold max xs a \<and> (\<forall>x \<in> set xs. x \<le> fold max xs a)"
proof (induction xs arbitrary: a)
  case Nil
  then show ?case by simp
next
  case (Cons y ys)
  have "max y a \<le> fold max ys (max y a)" and "\<forall>x \<in> set ys. x \<le> fold max ys (max y a)"
    using Cons.IH [of "max y a"] by simp_all
  then show ?case by auto
qed

lemma next_id_fresh: "next_id ids \<notin> set ids"
proof
  assume "next_id ids \<in> set ids"
  then have "next_id ids \<le> fold max ids 0" using fold_max_ge [of 0 ids] by blast
  then show False by (simp add: next_id_def)
qed

section \<open>Every handler keeps the keys\<close>

lemma like_blog_fields [simp]:
  "blog_likes (like_blog d now u b) =
     (if has_liked_blog d u b then blog_likes d
      else blog_likes d @ [\<lparr>bl_user_id = u_id u, bl_blog_id = b_id b, bl_date_liked = now\<rparr>])"
  "users (like_blog d now u b) = users d"
  "blogs (like_blog d now u b) = blogs d"
  "comments (like_blog d now u b) = comments d"
  "followers (like_blog d now u b) = followers d"
  "comment_likes (like_blog d now u b) = comment_likes d"
  by (simp_all add: like_blog_def)

lemma unlike_blog_fields [simp]:
  "blog_likes (unlike_blog d u b) =
     (if has_liked_blog d u b
      then [r \<leftarrow> blog_likes d. \<not> (bl_user_id r = u_id u \<and> bl_blog_id r = b_id b)]
      else blog_likes d)"
  "users (unlike_blog d u b) = users d"
  "blogs (unlike_blog d u b) = blogs d"
  "comments (unlike_blog d u b) = comments d"
  "followers (unlike_blog d u b) = followers d"
  "comment_likes (unlike_blog d u b) = comment_likes d"
  by (simp_all add: unlike_blog_def)

lemma like_comment_fields [simp]:
  "comment_likes (like_comment d now u c) =
     (if has_liked_comment d u c then comment_likes d
      else comment_likes d @
             [\<lparr>cl_user_id = u_id u, cl_comment_id = c_id c, cl_date_liked = now\<rparr>])"
  "users (like_comment d now u c) = users d"
  "blogs (like_comment d now u c) = blogs d"
  "comments (like_comment d now u c) = comments d"
  "followers (like_comment d now u c) = followers d"
  "blog_likes (like_comment d now u c) = blog_likes d"
  by (simp_all add: like_comment_def)

lemma unlike_comment_fields [simp]:
  "comment_likes (unlike_comment d u c) =
     (if has_liked_comment d u c
      then [r \<leftarrow> comment_likes d. \<not> (cl_user_id r = u_id u \<and> cl_comment_id r = c_id c)]
      else comment_likes d)"
  "users (unlike_comment d u c) = users d"
  "blogs (unlike_comment d u c) = blogs d"
  "comments (unlike_comment d u c) = comments d"
  "followers (unlike_comment d u c) = followers d"
  "blog_likes (unlike_comment d u c) = blog_likes d"
  by (simp_all add: unlike_comment_def)

lemma has_liked_blog_key:
  "has_liked_blog d u b \<longleftrightarrow>
     (u_id u, b_id b) \<in> blog_like_key ` set (blog_likes d) \<and> b_id b \<in> b_id ` set (blogs d)"
  unfolding has_liked_blog_iff by (simp add: blog_like_key_def image_iff) metis

lemma has_liked_comment_key:
  "has_liked_comment d u c \<longleftrightarrow>
     (u_id u, c_id c) \<in> comment_like_key ` set (comment_likes d) \<and>
     c_id c \<in> c_id ` set (comments d)"
  unfolding has_liked_comment_iff by (simp add: comment_like_key_def image_iff) metis

lemma is_following_key:
  "is_following d a b \<longleftrightarrow>
     (u_id a, u_id b) \<in> follow_key ` set (followers d) \<and> u_id b \<in> u_id ` set (users d)"
  unfolding is_following_iff by (simp add: follow_key_def image_iff) metis

lemma like_blog_integrity:
  assumes "integrity d" "u_id u \<in> u_id ` set (users d)" "b_id b \<in> b_id ` set (blogs d)"
  shows "integrity (like_blog d now u b)"
proof (cases "has_liked_blog d u b")
  case True
  then show ?thesis using assms(1) by (simp add: like_blog_def)
next
  case False
  then have "(u_id u, b_id b) \<notin> blog_like_key ` set (blog_likes d)"
    using assms(3) by (simp add: has_liked_blog_key)
  then show ?thesis
    using assms False by (simp add: integrity_def keys_ok_def refs_ok_def blog_like_key_def)
qed

lemma unlike_blog_integrity:
  assumes "integrity d"
  shows "integrity (unlike_blog d u b)"
  using assms
  by (auto simp: integrity_def keys_ok_def refs_ok_def distinct_map_filter)

lemma like_comment_integrity:
  assumes "integrity d" "u_id u \<in> u_id ` set (users d)" "c_id c \<in> c_id ` set (comments d)"
  shows "integrity (like_comment d now u c)"
proof (cases "has_liked_comment d u c")
  case True
  then show ?thesis using assms(1) by (simp add: like_comment_def)
next
  case False
  then have "(u_id u, c_id c) \<notin> comment_like_key ` set (comment_likes d)"
    using assms(3) by (simp add: has_liked_comment_key)
  then show ?thesis
    using assms False by (simp add: integrity_def keys_ok_def refs_ok_def comment_like_key_def)
qed

lemma unlike_comment_integrity:
  assumes "integrity d"
  shows "integrity (unlike_comment d u c)"
  using assms
  by (auto simp: integrity_def keys_ok_def refs_ok_def distinct_map_filter)

lemma follow_integrity:
  assumes "integrity d" "u_id a \<in> u_id ` set (users d)" "u_id b \<in> u_id ` set (users d)"
  shows "integrity (follow d now a b)"
proof (cases "is_following d a b")
  case True
  then show ?thesis using assms(1) by (simp add: follow_def)
next
  case False
  then have "(u_id a, u_id b) \<notin> follow_key ` set (followers d)"
    using assms(3) by (simp add: is_following_key)
  then show ?thesis
    using assms False by (simp add: integrity_def keys_ok_def refs_ok_def follow_key_def)
qed

lemma unfollow_integrity:
  assumes "integrity d"
  shows "integrity (unfollow d a b)"
  using assms
  by (auto simp: integrity_def keys_ok_def refs_ok_def distinct_map_filter)

lemma login_required_preserves:
  assumes "integrity d"
    and "\<And>me. cu = Account me \<Longrightarrow> is_active me \<Longrightarrow> integrity (fst (view me))"
  shows "integrity (fst (login_required d cu view))"
  using assms by (cases cu) auto

lemma get_blog_stored: "get_blog d i = Some b \<Longrightarrow> b \<in> set (blogs d) \<and> b_id b = i"
  by (auto simp: get_blog_def dest: find_Some_set)

lemma get_comment_stored: "get_comment d i = Some c \<Longrightarrow> c \<in> set (comments d) \<and> c_id c = i"
  by (auto simp: get_comment_def dest: find_Some_set)

lemma toggle_like_blog_integrity:
  assumes "integrity d" "session_user d cu"
  shows "integrity (fst (toggle_like_blog d now cu i))"
  unfolding toggle_like_blog_def
proof (rule login_required_preserves [OF assms(1)])
  fix me assume "cu = Account me"
  then have me: "u_id me \<in> u_id ` set (users d)" using assms(2) by simp
  show "integrity (fst (case get_blog d i of None \<Rightarrow> (d, Not_found)
      | Some b \<Rightarrow> if has_liked_blog d me b
          then let d' = unlike_blog d me b in (d', Like_status ''unliked'' (likes_count d' b))
          else let d' = like_blog d now me b in (d', Like_status ''liked'' (likes_count d' b))))"
  proof (cases "get_blog d i")
    case None
    then show ?thesis using assms(1) by simp
  next
    case (Some b)
    then have "b_id b \<in> b_id ` set (blogs d)" using get_blog_stored by blast
    then show ?thesis
      using Some assms(1) me
      by (simp add: Let_def like_blog_integrity unlike_blog_integrity)
  qed
qed

lemma toggle_like_comment_integrity:
  assumes "integrity d" "session_user d cu"
  shows "integrity (fst (toggle_like_comment d now cu i))"
  unfolding toggle_like_comment_def
proof (rule login_required_preserves [OF assms(1)])
  fix me assume "cu = Account me"
  then have me: "u_id me \<in> u_id ` set (users d)" using assms(2) by simp
  show "integrity (fst (case get_comment d i of None \<Rightarrow> (d, Not_found)
      | Some c \<Rightarrow> if has_liked_comment d me c
          then let d' = unlike_comment d me c
               in (d', Like_status ''unliked'' (comment_likes_count d' c))
          else let d' = like_comment d now me c
               in (d', Like_status ''liked'' (comment_likes_count d' c))))"
  proof (cases "get_comment d i")
    case None
    then show ?thesis using assms(1) by simp
  next
    case (Some c)
    then have "c_id c \<in> c_id ` set (comments d)" using get_comment_stored by blast
    then show ?thesis
      using Some assms(1) me
      by (simp add: Let_def like_comment_integrity unlike_comment_integrity)
  qed
qed

lemma toggle_follow_integrity:
  assumes "integrity d" "session_user d cu"
  shows "integrity (fst (toggle_follow d now cu name))"
  unfolding toggle_follow_def
proof (rule login_required_preserves [OF assms(1)])
  fix me assume "cu = Account me"
  then have me: "u_id me \<in> u_id ` set (users d)" using assms(2) by simp
  show "integrity (fst (case find (\<lambda>u. username u = name) (users d) of
        None \<Rightarrow> (d, Json_error ''User not found'' 404)
      | Some usr \<Rightarrow>
          if u_id usr = u_id me then (d, Json_error ''You cannot follow yourself'' 400)
          else if is_following d me usr
            then let d' = unfollow d me usr
                 in (d', Follow_status ''unfollowed'' (followers_count d' usr))
            else let d' = follow d now me usr
                 in (d', Follow_status ''followed'' (followers_count d' usr))))"
  proof (cases "find (\<lambda>u. username u = name) (users d)")
    case None
    then show ?thesis using assms(1) by simp
  next
    case (Some usr)
    then have "u_id usr \<in> u_id ` set (users d)" by (auto dest: find_Some_set)
    then show ?thesis
      using Some assms(1) me
      by (simp add: Let_def follow_integrity unfollow_integrity)
  qed
qed

lemma add_comment_integrity:
  assumes "integrity d" "session_user d cu"
  shows "integrity (fst (add_comment d now cu i form))"
  unfolding add_comment_def
proof (rule login_required_preserves [OF assms(1)])
  fix me assume "cu = Account me"
  then have me: "u_id me \<in> u_id ` set (users d)" using assms(2) by simp
  show "integrity (fst (case get_blog d i of None \<Rightarrow> (d, Not_found)
      | Some b \<Rightarrow>
          if cf_valid form
          then let c = \<lparr>c_id = next_id (map c_id (comments d)), c_content = cf_content form,
                        c_date_created = now, c_user_id = u_id me, c_blog_id = b_id b\<rparr>
               in (d\<lparr>comments := comments d @ [c]\<rparr>,
                   Comment_added \<lparr>cj_id = c_id c, cj_content = c_content c, cj_likes_count = 0\<rparr>)
          else (d, Form_errors)))"
  proof (cases "get_blog d i")
    case None
    then show ?thesis using assms(1) by simp
  next
    case (Some b)
    then have b: "b_id b \<in> b_id ` set (blogs d)" using get_blog_stored by blast
    have fresh: "next_id (map c_id (comments d)) \<notin> c_id ` set (comments d)"
      using next_id_fresh [of "map c_id (comments d)"] by simp
    show ?thesis
      using Some assms(1) me b fresh
      by (auto simp: Let_def integrity_def keys_ok_def refs_ok_def)
  qed
qed

lemma create_blog_integrity:
  assumes "integrity d" "session_user d cu"
  shows "integrity (fst (create_blog d now cu form))"
  unfolding create_blog_def
proof (rule login_required_preserves [OF assms(1)])
  fix me assume "cu = Account me"
  then have me: "u_id me \<in> u_id ` set (users d)" using assms(2) by simp
  have fresh: "next_id (map b_id (blogs d)) \<notin> b_id ` set (blogs d)"
    using next_id_fresh [of "map b_id (blogs d)"] by simp
  show "integrity (fst (if bf_valid form
      then (d\<lparr>blogs := blogs d @
              [\<lparr>b_id = next_id (map b_id (blogs d)), title = bf_title form,
                b_content = bf_content form, is_public = bf_is_public form,
                is_featured = False, b_date_created = now, b_user_id = u_id me\<rparr>]\<rparr>, Redirect)
      else (d, Rendered)))"
    using assms(1) me fresh
    by (auto simp: integrity_def keys_ok_def refs_ok_def)
qed

lemma register_integrity:
  assumes "integrity d"
  shows "integrity (fst (register d cu form))"
proof -
  have fresh: "next_id (map u_id (users d)) \<notin> u_id ` set (users d)"
    using next_id_fresh [of "map u_id (users d)"] by simp
  show ?thesis
    using assms fresh
    by (auto simp: register_def integrity_def keys_ok_def refs_ok_def)
qed

lemma image_filter_subset: "f ` set xs \<subseteq> B \<Longrightarrow> f ` set (filter P xs) \<subseteq> B"
  by auto

lemma ref_filter:
  assumes "f ` set rs \<subseteq> g ` set xs"
    and "\<And>r x. r \<in> set rs \<Longrightarrow> x \<in> set xs \<Longrightarrow> P r \<Longrightarrow> f r = g x \<Longrightarrow> Q x"
  shows "f ` set (filter P rs) \<subseteq> g ` set (filter Q xs)"
proof
  fix y assume "y \<in> f ` set (filter P rs)"
  then obtain r where r: "r \<in> set rs" "P r" "y = f r" by auto
  then obtain x where x: "x \<in> set xs" "f r = g x" using assms(1) by auto
  then have "Q x" using assms(2) r by blast
  then show "y \<in> g ` set (filter Q xs)" using x r by auto
qed

lemma session_delete_comment_integrity:
  assumes "integrity d"
  shows "integrity (session_delete_comment d c)"
proof -
  have k: "keys_ok (session_delete_comment d c)"
    using assms by (simp add: integrity_def keys_ok_def distinct_map_filter)
  have rf: "refs_ok d" using assms by (simp add: integrity_def)
  have "cl_comment_id ` set [r \<leftarrow> comment_likes d. cl_comment_id r \<noteq> c_id c]
      \<subseteq> c_id ` set [x \<leftarrow> comments d. c_id x \<noteq> c_id c]"
    by (rule ref_filter) (use rf in \<open>simp_all add: refs_ok_def\<close>)
  then have r: "refs_ok (session_delete_comment d c)"
    using rf by (simp add: refs_ok_def image_filter_subset del: set_filter)
  show ?thesis using k r by (simp add: integrity_def)
qed

lemma session_delete_blog_integrity:
  assumes "integrity d"
  shows "integrity (session_delete_blog d b)"
proof -
  have k: "keys_ok (session_delete_blog d b)"
    using assms by (simp add: integrity_def keys_ok_def distinct_map_filter)
  have rf: "refs_ok d" using assms by (simp add: integrity_def)
  have own: "c_id x \<in> c_id ` set (blog_comments d b)"
    if "x \<in> set (comments d)" "c_blog_id x = b_id b" for x
    using that by (simp add: blog_comments_def)
  have 1: "c_blog_id ` set [x \<leftarrow> comments d. c_id x \<notin> c_id ` set (blog_comments d b)]
      \<subseteq> b_id ` set [x \<leftarrow> blogs d. b_id x \<noteq> b_id b]"
  proof (rule ref_filter)
    show "c_blog_id ` set (comments d) \<subseteq> b_id ` set (blogs d)"
      using rf by (simp add: refs_ok_def)
  next
    fix r x assume "r \<in> set (comments d)" "c_id r \<notin> c_id ` set (blog_comments d b)"
      "c_blog_id r = b_id x"
    then show "b_id x \<noteq> b_id b" using own [of r] by auto
  qed
  have 2: "bl_blog_id ` set [r \<leftarrow> blog_likes d. bl_blog_id r \<noteq> b_id b]
      \<subseteq> b_id ` set [x \<leftarrow> blogs d. b_id x \<noteq> b_id b]"
    by (rule ref_filter) (use rf in \<open>simp_all add: refs_ok_def\<close>)
  have 3: "cl_comment_id ` set [r \<leftarrow> comment_likes d.
                                   cl_comment_id r \<notin> c_id ` set (blog_comments d b)]
      \<subseteq> c_id ` set [x \<leftarrow> comments d. c_id x \<notin> c_id ` set (blog_comments d b)]"
    by (rule ref_filter) (use rf in \<open>simp_all add: refs_ok_def\<close>)
  have r: "refs_ok (session_delete_blog d b)"
    using rf 1 2 3 by (simp add: refs_ok_def image_filter_subset del: set_filter)
  show ?thesis using k r by (simp add: integrity_def)
qed

lemma delete_comment_integrity:
  assumes "integrity d"
  shows "integrity (fst (delete_comment d ok cu i))"
  unfolding delete_comment_def
  by (rule login_required_preserves [OF assms])
     (simp add: assms session_delete_comment_integrity split: option.splits)

lemma delete_blog_integrity:
  assumes "integrity d"
  shows "integrity (fst (delete_blog d cu i))"
  unfolding delete_blog_def
  by (rule login_required_preserves [OF assms])
     (simp add: assms session_delete_blog_integrity split: option.splits)

lemma edit_blog_integrity:
  assumes "integrity d"
  shows "integrity (fst (edit_blog d cu i form))"
  unfolding edit_blog_def
proof (rule login_required_preserves [OF assms])
  fix me
  define f :: "blog \<Rightarrow> blog \<Rightarrow> blog" where "f = (\<lambda>b x. if b_id x = b_id b
              then x\<lparr>title := bf_title form, b_content := bf_content form,
                     is_public := bf_is_public form\<rparr>
              else x)"
  have comp: "b_id \<circ> f b = b_id" "b_user_id \<circ> f b = b_user_id" for b :: blog
    by (auto simp: f_def fun_eq_iff)
  have upd: "integrity (d\<lparr>blogs := map (f b) (blogs d)\<rparr>)" for b
    using assms
    by (simp add: integrity_def keys_ok_def refs_ok_def comp image_comp)
  show "integrity (fst (case get_blog d i of None \<Rightarrow> (d, Not_found)
      | Some b \<Rightarrow>
          if \<not> is_author d b me then (d, Redirect)
          else if bf_valid form
            then (d\<lparr>blogs := map (\<lambda>x. if b_id x = b_id b
                   then x\<lparr>title := bf_title form, b_content := bf_content form,
                          is_public := bf_is_public form\<rparr>
                   else x) (blogs d)\<rparr>, Redirect)
            else (d, Rendered)))"
    using assms upd unfolding f_def by (simp split: option.splits)
qed

lemma edit_profile_integrity:
  assumes "integrity d"
  shows "integrity (fst (edit_profile d cu form))"
  unfolding edit_profile_def
proof (rule login_required_preserves [OF assms])
  fix me
  define f :: "user \<Rightarrow> user" where "f = (\<lambda>u. if u_id u = u_id me then u\<lparr>username := uf_username form\<rparr> else u)"
  have comp: "u_id \<circ> f = u_id"
    by (auto simp: f_def fun_eq_iff)
  have upd: "integrity (d\<lparr>users := map f (users d)\<rparr>)"
    using assms
    by (simp add: integrity_def keys_ok_def refs_ok_def comp image_comp)
  show "integrity (fst (if uf_valid form
      then if uf_username form \<in> set (map username [u \<leftarrow> users d. u_id u \<noteq> u_id me])
        then (d, Server_error)
        else (d\<lparr>users := map (\<lambda>u. if u_id u = u_id me
                 then u\<lparr>username := uf_username form\<rparr> else u) (users d)\<rparr>, Redirect)
      else (d, Rendered)))"
    using assms upd unfolding f_def by simp
qed

lemma handle_integrity:
  assumes "integrity d" "session_user d cu"
  shows "integrity (fst (handle d cu rq))"
  using assms
  by (cases rq)
     (simp_all add: register_integrity edit_profile_integrity create_blog_integrity
        edit_blog_integrity delete_blog_integrity toggle_follow_integrity
        toggle_like_blog_integrity toggle_like_comment_integrity add_comment_integrity
        delete_comment_integrity)

lemma reachable_integrity: "reachable d \<Longrightarrow> integrity d"
proof (induction rule: reachable.induct)
  case init
  show ?case by (simp add: integrity_def keys_ok_def refs_ok_def empty_db_def)
next
  case (step d cu rq)
  then show ?case by (simp add: handle_integrity)
qed

section \<open>Counting like rows\<close>

lemma length_filter_key:
  assumes "distinct (map f xs)" "k \<in> f ` set xs"
  shows "length [x \<leftarrow> xs. k = f x] = 1"
proof -
  obtain x where x: "x \<in> set xs" "k = f x" using assms(2) by auto
  have "[y \<leftarrow> xs. f y = f x] = [x]" by (rule filter_key_single [OF assms(1) x(1)])
  moreover have "[y \<leftarrow> xs. k = f y] = [y \<leftarrow> xs. f y = f x]"
    by (rule filter_cong) (auto simp: x(2))
  ultimately show ?thesis by simp
qed

lemma distinct_pair_filter:
  "distinct (map (\<lambda>r. (f r, g r)) xs) \<Longrightarrow> distinct (map f [r \<leftarrow> xs. g r = c])"
  by (induction xs) (auto simp: image_iff)

lemma count_join:
  assumes "distinct (map uid us)" "f ` set rs \<subseteq> uid ` set us"
  shows "(\<Sum>r\<leftarrow>rs. length [u \<leftarrow> us. g r = c \<and> f r = uid u]) = length [r \<leftarrow> rs. g r = c]"
  using assms(2)
proof (induction rs)
  case Nil
  then show ?case by simp
next
  case (Cons r rs)
  have one: "length [u \<leftarrow> us. f r = uid u] = 1"
    by (rule length_filter_key [OF assms(1)]) (use Cons.prems in auto)
  have "length [u \<leftarrow> us. g r = c \<and> f r = uid u] = (if g r = c then 1 else 0)"
    using one by simp
  then show ?case using Cons by simp
qed

lemma blog_like_key_fun: "blog_like_key = (\<lambda>r. (bl_user_id r, bl_blog_id r))"
  by (simp add: fun_eq_iff blog_like_key_def)

lemma comment_like_key_fun: "comment_like_key = (\<lambda>r. (cl_user_id r, cl_comment_id r))"
  by (simp add: fun_eq_iff comment_like_key_def)

lemma likes_count_card:
  assumes "integrity d"
  shows "likes_count d b = card (blog_likers d b)"
proof -
  have keys: "distinct (map u_id (users d))"
    "distinct (map (\<lambda>r. (bl_user_id r, bl_blog_id r)) (blog_likes d))"
    and refs: "bl_user_id ` set (blog_likes d) \<subseteq> u_id ` set (users d)"
    using assms by (simp_all add: integrity_def keys_ok_def refs_ok_def blog_like_key_fun)
  have "likes_count d b = length [r \<leftarrow> blog_likes d. bl_blog_id r = b_id b]"
    unfolding likes_count_sum by (rule count_join [OF keys(1) refs])
  also have "\<dots> = card (blog_likers d b)"
    unfolding blog_likers_def
    using distinct_card [OF distinct_pair_filter [OF keys(2), of "b_id b"]] by simp
  finally show ?thesis .
qed

lemma comment_likes_count_card:
  assumes "integrity d"
  shows "comment_likes_count d c = card (comment_likers d c)"
proof -
  have keys: "distinct (map u_id (users d))"
    "distinct (map (\<lambda>r. (cl_user_id r, cl_comment_id r)) (comment_likes d))"
    and refs: "cl_user_id ` set (comment_likes d) \<subseteq> u_id ` set (users d)"
    using assms by (simp_all add: integrity_def keys_ok_def refs_ok_def comment_like_key_fun)
  have "comment_likes_count d c = length [r \<leftarrow> comment_likes d. cl_comment_id r = c_id c]"
    unfolding comment_likes_count_sum by (rule count_join [OF keys(1) refs])
  also have "\<dots> = card (comment_likers d c)"
    unfolding comment_likers_def
    using distinct_card [OF distinct_pair_filter [OF keys(2), of "c_id c"]] by simp
  finally show ?thesis .
qed

section \<open>The store built by requests\<close>

lemma db_run_steps:
  "fst (handle empty_db Anonymous (Register \<lparr>uf_valid = True, uf_username = ''alice''\<rparr>)) =
     empty_db\<lparr>users := [alice]\<rparr>"
  "fst (handle (empty_db\<lparr>users := [alice]\<rparr>) (Account alice)
         (Create_blog 10 \<lparr>bf_valid = True, bf_title = ''t'', bf_content = ''c'',
                           bf_is_public = False\<rparr>)) =
     empty_db\<lparr>users := [alice], blogs := [blog1]\<rparr>"
  "fst (handle (empty_db\<lparr>users := [alice], blogs := [blog1]\<rparr>) (Account alice)
         (Toggle_like_blog 11 1)) =
     empty_db\<lparr>users := [alice], blogs := [blog1],
              blog_likes := [\<lparr>bl_user_id = 1, bl_blog_id = 1, bl_date_liked = 11\<rparr>]\<rparr>"
  by (simp_all add: register_def create_blog_def toggle_like_blog_def get_blog_def
        has_liked_blog_iff like_blog_def empty_db_def alice_def blog1_def mk_blog_def
        next_id_def Let_def)

lemma db_run_eq:
  "db_run = \<lparr>users = [alice], blogs = [blog1], comments = [], followers = [],
             blog_likes = [\<lparr>bl_user_id = 1, bl_blog_id = 1, bl_date_liked = 11\<rparr>],
             comment_likes = []\<rparr>"
  unfolding db_run_def db_run_steps by (simp add: empty_db_def)

lemma db_run_reachable: "reachable db_run"
proof -
  have 1: "reachable (empty_db\<lparr>users := [alice]\<rparr>)"
    using reachable.step [OF reachable.init, of Anonymous
        "Register \<lparr>uf_valid = True, uf_username = ''alice''\<rparr>"]
    unfolding db_run_steps by simp
  have 2: "reachable (empty_db\<lparr>users := [alice], blogs := [blog1]\<rparr>)"
    using reachable.step [OF 1, of "Account alice"
        "Create_blog 10 \<lparr>bf_valid = True, bf_title = ''t'', bf_content = ''c'',
                           bf_is_public = False\<rparr>"]
    unfolding db_run_steps by simp
  show ?thesis
    using reachable.step [OF 2, of "Account alice" "Toggle_like_blog 11 1"]
    unfolding db_run_def db_run_steps by simp
qed

lemma find_append_fresh:
  "\<forall>x \<in> set xs. \<not> P x \<Longrightarrow> find P (xs @ ys) = find P ys"
  by (induction xs) simp_all


section \<open>Sorting and cutting\<close>

text \<open>
  The first \<open>k\<close> entries of a sorted list depend only on the first \<open>k\<close> entries of each
  sorted part that went into it.
\<close>

lemma take_insort_key:
  "take k (insort_key f x xs) = take k (insort_key f x (take k xs))"
proof (induction xs arbitrary: k)
  case Nil
  then show ?case by simp
next
  case (Cons y ys)
  show ?case
  proof (cases k)
    case 0
    then show ?thesis by simp
  next
    case (Suc j)
    show ?thesis
    proof (cases "f x \<le> f y")
      case True
      then show ?thesis by (cases j) (simp_all add: Suc)
    next
      case False
      then show ?thesis using Cons.IH [of j] by (simp add: Suc)
    qed
  qed
qed

lemma take_foldr_insort_key:
  "take k (foldr (insort_key f) xs ys) = take k (foldr (insort_key f) xs (take k ys))"
proof (induction xs)
  case Nil
  then show ?case by simp
next
  case (Cons x xs)
  have "take k (insort_key f x (foldr (insort_key f) xs ys)) =
        take k (insort_key f x (take k (foldr (insort_key f) xs ys)))"
    by (rule take_insort_key)
  also have "\<dots> = take k (insort_key f x (take k (foldr (insort_key f) xs (take k ys))))"
    by (simp only: Cons.IH)
  also have "\<dots> = take k (insort_key f x (foldr (insort_key f) xs (take k ys)))"
    by (rule take_insort_key [symmetric])
  finally show ?case by simp
qed

lemma take_sort_key_append:
  "take k (sort_key f (xs @ ys)) = take k (sort_key f (xs @ take k (sort_key f ys)))"
proof -
  have "sorted (map f (take k (sort_key f ys)))"
    by (simp add: take_map [symmetric] sorted_wrt_take)
  then have id: "sort_key f (take k (sort_key f ys)) = take k (sort_key f ys)"
    by (rule sort_key_id_if_sorted)
  have "take k (sort_key f (xs @ ys)) = take k (foldr (insort_key f) xs (sort_key f ys))"
    by (simp add: sort_key_def)
  also have "\<dots> = take k (foldr (insort_key f) xs (take k (sort_key f ys)))"
    by (rule take_foldr_insort_key)
  also have "\<dots> = take k (sort_key f (xs @ take k (sort_key f ys)))"
    using id by (simp add: sort_key_def)
  finally show ?thesis .
qed

lemma sort_key_unique:
  assumes "inj_on f (set xs)" "distinct xs" "distinct ys" "set xs = set ys"
  shows "sort_key f xs = sort_key f ys"
proof -
  have "map f (sort_key f xs) = map f (sort_key f ys)"
  proof (rule sorted_distinct_set_unique)
    show "distinct (map f (sort_key f xs))" using assms(1,2) by (simp add: distinct_map)
    show "distinct (map f (sort_key f ys))" using assms(1,3,4) by (simp add: distinct_map)
  qed (simp_all add: assms(4))
  moreover have "inj_on f (set (sort_key f xs) \<union> set (sort_key f ys))"
    using assms(1,4) by simp
  ultimately show ?thesis by (simp add: inj_on_map_eq_map)
qed

text \<open>The filter of \<^verbatim>\<open>follower_blogs\<close> selects the private posts the viewer may see.\<close>

lemma followed_ids_iff:
  "k \<in> set (map u_id (map fst (followed d me))) \<longleftrightarrow>
     k \<in> u_id ` set (users d) \<and> (u_id me, k) \<in> follow_key ` set (followers d)"
  unfolding followed_def by (simp add: follow_key_def image_iff) metis

lemma find_id_cases:
  "(case find (\<lambda>u. f u = k) xs of None \<Rightarrow> False | Some a \<Rightarrow> Q (f a)) \<longleftrightarrow>
     k \<in> f ` set xs \<and> Q k"
  by (induction xs) auto

lemma visible_private_iff:
  "visible_private d me b \<longleftrightarrow>
     b_user_id b \<in> set (map u_id (map fst (followed d me)) @ [u_id me]) \<and> \<not> is_public b"
proof -
  have "(case author d b of None \<Rightarrow> False | Some a \<Rightarrow> is_following d me a) \<longleftrightarrow>
        b_user_id b \<in> u_id ` set (users d) \<and>
        ((u_id me, b_user_id b) \<in> follow_key ` set (followers d) \<and>
         b_user_id b \<in> u_id ` set (users d))"
    unfolding author_def is_following_key
    by (rule find_id_cases
        [where Q = "\<lambda>k. (u_id me, k) \<in> follow_key ` set (followers d) \<and> k \<in> u_id ` set (users d)"])
  moreover have "b_user_id b \<in> set (map u_id (map fst (followed d me)) @ [u_id me]) \<longleftrightarrow>
      b_user_id b \<in> set (map u_id (map fst (followed d me))) \<or> b_user_id b = u_id me"
    by auto
  ultimately show ?thesis
    unfolding visible_private_def by (simp only: followed_ids_iff) blast
qed


section \<open>Visibility\<close>

text \<open>
  C1. For every post and every viewer (possibly absent or anonymous), \<open>can_view\<close>
  returns: true when the post is public; otherwise false when the viewer is absent or
  unauthenticated; otherwise true when the viewer's id is the post's author id;
  otherwise, the author row of the post being stored, true when the viewer follows the
  post's author and false in every remaining case.
\<close>

theorem can_view_rules:
  "(is_public p \<longrightarrow> can_view d p v = Inr True)
   \<and> (\<not> is_public p \<and> (v = None \<or> (\<exists>q. v = Some q \<and> \<not> is_authenticated q))
        \<longrightarrow> can_view d p v = Inr False)
   \<and> (\<not> is_public p \<and> v = Some (Account u) \<and> is_authenticated (Account u)
        \<and> u_id u = b_user_id p \<longrightarrow> can_view d p v = Inr True)
   \<and> (\<not> is_public p \<and> v = Some (Account u) \<and> is_authenticated (Account u)
        \<and> u_id u \<noteq> b_user_id p \<and> author d p = Some a \<and> is_following d u a
        \<longrightarrow> can_view d p v = Inr True)
   \<and> (\<not> is_public p \<and> v = Some (Account u) \<and> is_authenticated (Account u)
        \<and> u_id u \<noteq> b_user_id p \<and> author d p = Some a \<and> \<not> is_following d u a
        \<longrightarrow> can_view d p v = Inr False)"
proof -
  have unauth: "can_view d p (Some q) = Inr False"
    if "\<not> is_public p" "\<not> is_authenticated q" for q
    using that by (cases q) (simp_all add: can_view_def)
  show ?thesis
    using unauth by (auto simp: can_view_def)
qed

theorem can_view_rules_witness:
  "author db1 (mk_blog 1 False 10 1) = Some alice
   \<and> is_following db1 bob alice
   \<and> can_view db1 (mk_blog 1 False 10 1) (Some (Account bob)) = Inr True
   \<and> can_view db1 (mk_blog 1 False 10 1) (Some (Account carol)) = Inr False
   \<and> can_view db1 (mk_blog 1 False 10 1) (Some (Account alice)) = Inr True
   \<and> can_view db1 (mk_blog 1 False 10 1) None = Inr False"
proof -
  have a: "author db1 (mk_blog 1 False 10 1) = Some alice"
    by (simp add: author_def db1_def mk_blog_def alice_def)
  have f: "is_following db1 bob alice"
    by (simp add: is_following_iff db1_def alice_def bob_def carol_def)
  have nf: "\<not> is_following db1 carol alice"
    by (simp add: is_following_iff db1_def alice_def bob_def carol_def)
  have pr: "\<not> is_public (mk_blog 1 False 10 1)" "b_user_id (mk_blog 1 False 10 1) = 1"
    by (simp_all add: mk_blog_def)
  have ids: "u_id bob = 2" "u_id carol = 3" "u_id alice = 1"
    "is_active bob" "is_active carol" "is_active alice"
    by (simp_all add: alice_def bob_def carol_def)
  show ?thesis
    using can_view_rules [of "mk_blog 1 False 10 1" db1 "Some (Account bob)" bob alice]
      can_view_rules [of "mk_blog 1 False 10 1" db1 "Some (Account carol)" carol alice]
      can_view_rules [of "mk_blog 1 False 10 1" db1 "Some (Account alice)" alice alice]
      can_view_rules [of "mk_blog 1 False 10 1" db1 None alice alice]
      a f nf pr ids
    by simp
qed

section \<open>Social graph\<close>

text \<open>
  C4. For users A and B, B a stored user, in a store whose \<^verbatim>\<open>followers\<close> table has no
  repeated (follower, followed) pair: after \<open>follow A B\<close>, \<open>is_following A B\<close> holds;
  a second \<open>follow A B\<close> changes nothing; the table then holds exactly one row of the
  pair (A, B), and still no pair twice.
\<close>

theorem follow_then_following_once:
  assumes "u_id b \<in> set (map u_id (users d))"
    and "distinct (map follow_key (followers d))"
  shows "is_following (follow d now a b) a b
       \<and> follow (follow d now a b) now' a b = follow d now a b
       \<and> length [r \<leftarrow> followers (follow (follow d now a b) now' a b).
                    follow_key r = (u_id a, u_id b)] = 1
       \<and> distinct (map follow_key (followers (follow (follow d now a b) now' a b)))"
proof -
  have ex: "\<exists>u \<in> set (users d). u_id u = u_id b" using assms(1) by auto
  have twice: "follow (follow d now a b) now' a b = follow d now a b"
    by (rule follow_twice [OF ex])
  show ?thesis
    using is_following_follow [OF ex] follow_count [OF ex assms(2)]
      follow_distinct [OF assms] twice by simp
qed

theorem follow_then_following_once_witness:
  "u_id alice \<in> set (map u_id (users db1))
   \<and> distinct (map follow_key (followers db1))
   \<and> is_following (follow db1 7 carol alice) carol alice
   \<and> follow (follow db1 7 carol alice) 8 carol alice = follow db1 7 carol alice
   \<and> length [r \<leftarrow> followers (follow (follow db1 7 carol alice) 8 carol alice).
                follow_key r = (u_id carol, u_id alice)] = 1
   \<and> distinct (map follow_key (followers (follow (follow db1 7 carol alice) 8 carol alice)))"
proof -
  have h1: "u_id alice \<in> set (map u_id (users db1))"
    by (simp add: db1_def alice_def)
  have h2: "distinct (map follow_key (followers db1))"
    by (simp add: db1_def)
  show ?thesis
    using follow_then_following_once [OF h1 h2, of 7 carol 8] h1 h2 by blast
qed

text \<open>
  \<^verbatim>\<open>User.follow\<close> has no test for the user itself: \<open>follow A A\<close> returns normally
  and stores the edge (A, A).
\<close>

theorem follow_self_counterexample:
  "followers (follow db1 7 alice alice) =
     followers db1 @ [\<lparr>follower_id = 1, followed_id = 1, date_followed = 7\<rparr>]
   \<and> is_following (follow db1 7 alice alice) alice alice"
proof -
  have "\<not> is_following db1 alice alice"
    by (simp add: is_following_iff db1_def alice_def)
  moreover have "is_following (follow db1 7 alice alice) alice alice"
    by (rule is_following_follow) (simp add: db1_def alice_def)
  ultimately show ?thesis by (simp add: alice_def)
qed

text \<open>
  C3 (amended). The self-follow test is in the handler: for every authenticated caller
  A, a toggle-follow request whose target is A answers 400 with the message
  "You cannot follow yourself" and leaves the store as it was.
\<close>

theorem toggle_follow_self_rejected:
  assumes "is_authenticated (Account me)"
    and "find (\<lambda>u. username u = name) (users d) = Some usr"
    and "u_id usr = u_id me"
  shows "toggle_follow d now (Account me) name =
           (d, Json_error ''You cannot follow yourself'' 400)"
  using assms by (simp add: toggle_follow_def)

theorem toggle_follow_self_rejected_witness:
  "is_authenticated (Account alice)
   \<and> find (\<lambda>u. username u = ''alice'') (users db1) = Some alice
   \<and> toggle_follow db1 7 (Account alice) ''alice'' =
       (db1, Json_error ''You cannot follow yourself'' 400)"
proof -
  have h1: "is_authenticated (Account alice)" by (simp add: alice_def)
  have h2: "find (\<lambda>u. username u = ''alice'') (users db1) = Some alice"
    by (simp add: db1_def alice_def)
  show ?thesis
    using toggle_follow_self_rejected [OF h1 h2 refl, of 7] h1 h2 by simp
qed

text \<open>
  C10. For an authenticated caller A and a target name: when no user has that name the
  answer is 404 and the store is unchanged; when the target is A the answer is 400 and
  the store is unchanged; otherwise, with B the target, the users, blogs, comments and
  both like tables are unchanged and so is every follow row of a pair other than (A, B).
\<close>

theorem toggle_follow_frame:
  assumes "is_authenticated (Account me)"
  shows "(find (\<lambda>u. username u = name) (users d) = None \<longrightarrow>
            toggle_follow d now (Account me) name = (d, Json_error ''User not found'' 404))
       \<and> (find (\<lambda>u. username u = name) (users d) = Some usr \<and> u_id usr = u_id me \<longrightarrow>
            toggle_follow d now (Account me) name =
              (d, Json_error ''You cannot follow yourself'' 400))
       \<and> (find (\<lambda>u. username u = name) (users d) = Some usr \<and> u_id usr \<noteq> u_id me \<longrightarrow>
            (let d' = fst (toggle_follow d now (Account me) name)
             in users d' = users d \<and> blogs d' = blogs d \<and> comments d' = comments d
                \<and> blog_likes d' = blog_likes d \<and> comment_likes d' = comment_likes d
                \<and> [r \<leftarrow> followers d'. follow_key r \<noteq> (u_id me, u_id usr)] =
                    [r \<leftarrow> followers d. follow_key r \<noteq> (u_id me, u_id usr)]))"
  using assms by (auto simp: toggle_follow_def Let_def follow_key_def)

theorem toggle_follow_frame_witness:
  "is_authenticated (Account carol)
   \<and> find (\<lambda>u. username u = ''alice'') (users db1) = Some alice
   \<and> u_id alice \<noteq> u_id carol
   \<and> followers (fst (toggle_follow db1 7 (Account carol) ''alice'')) \<noteq> followers db1
   \<and> users (fst (toggle_follow db1 7 (Account carol) ''alice'')) = users db1
   \<and> blogs (fst (toggle_follow db1 7 (Account carol) ''alice'')) = blogs db1
   \<and> comments (fst (toggle_follow db1 7 (Account carol) ''alice'')) = comments db1
   \<and> blog_likes (fst (toggle_follow db1 7 (Account carol) ''alice'')) = blog_likes db1
   \<and> comment_likes (fst (toggle_follow db1 7 (Account carol) ''alice'')) = comment_likes db1
   \<and> [r \<leftarrow> followers (fst (toggle_follow db1 7 (Account carol) ''alice'')).
         follow_key r \<noteq> (u_id carol, u_id alice)] =
       [r \<leftarrow> followers db1. follow_key r \<noteq> (u_id carol, u_id alice)]"
proof -
  have h1: "is_authenticated (Account carol)" by (simp add: carol_def)
  have h2: "find (\<lambda>u. username u = ''alice'') (users db1) = Some alice"
    by (simp add: db1_def alice_def)
  have h3: "u_id alice \<noteq> u_id carol" by (simp add: alice_def carol_def)
  have nf: "\<not> is_following db1 carol alice"
    by (simp add: is_following_iff db1_def alice_def bob_def carol_def)
  have ch: "followers (fst (toggle_follow db1 7 (Account carol) ''alice'')) \<noteq> followers db1"
    using h1 h2 h3 nf by (simp add: toggle_follow_def Let_def)
  show ?thesis
    using toggle_follow_frame [OF h1, of "''alice''" db1 7 alice] h1 h2 h3 ch
    by (simp add: Let_def)
qed

section \<open>Reaction ledger\<close>

text \<open>
  C5. For an authenticated user and a store whose like tables hold no (user, target)
  pair twice: after two like toggles in succession on the same post (or the same
  comment), \<open>has_liked\<close> of every user and target and \<open>likes_count\<close> of every target
  are what they were before, and when the target exists the first toggle did flip
  \<open>has_liked\<close> of the caller.
\<close>

theorem toggle_like_twice:
  assumes "is_authenticated (Account me)"
    and "distinct (map blog_like_key (blog_likes d))"
    and "distinct (map comment_like_key (comment_likes d))"
  shows "has_liked_blog (fst (toggle_like_blog (fst (toggle_like_blog d t1 (Account me) i))
             t2 (Account me) i)) u b = has_liked_blog d u b
       \<and> likes_count (fst (toggle_like_blog (fst (toggle_like_blog d t1 (Account me) i))
             t2 (Account me) i)) b = likes_count d b
       \<and> (\<forall>x. get_blog d i = Some x \<longrightarrow>
            has_liked_blog (fst (toggle_like_blog d t1 (Account me) i)) me x
              \<noteq> has_liked_blog d me x)
       \<and> has_liked_comment (fst (toggle_like_comment (fst (toggle_like_comment d t1 (Account me) j))
             t2 (Account me) j)) u c = has_liked_comment d u c
       \<and> comment_likes_count (fst (toggle_like_comment (fst (toggle_like_comment d t1 (Account me) j))
             t2 (Account me) j)) c = comment_likes_count d c
       \<and> (\<forall>x. get_comment d j = Some x \<longrightarrow>
            has_liked_comment (fst (toggle_like_comment d t1 (Account me) j)) me x
              \<noteq> has_liked_comment d me x)"
  using toggle_like_blog_twice [OF assms(1,2), of t1 i t2 u b]
    toggle_like_comment_twice [OF assms(1,3), of t1 j t2 u c]
  by blast

theorem toggle_like_twice_witness:
  "is_authenticated (Account carol)
   \<and> distinct (map blog_like_key (blog_likes db3))
   \<and> distinct (map comment_like_key (comment_likes db3))
   \<and> has_liked_blog (fst (toggle_like_blog (fst (toggle_like_blog db3 20 (Account carol) 1))
         21 (Account carol) 1)) carol blog1
   \<and> likes_count (fst (toggle_like_blog (fst (toggle_like_blog db3 20 (Account carol) 1))
         21 (Account carol) 1)) blog1 = 2
   \<and> \<not> has_liked_blog (fst (toggle_like_blog db3 20 (Account carol) 1)) carol blog1
   \<and> has_liked_comment (fst (toggle_like_comment (fst (toggle_like_comment db3 20 (Account carol) 1))
         21 (Account carol) 1)) carol comment1
   \<and> comment_likes_count (fst (toggle_like_comment (fst (toggle_like_comment db3 20 (Account carol) 1))
         21 (Account carol) 1)) comment1 = 1
   \<and> \<not> has_liked_comment (fst (toggle_like_comment db3 20 (Account carol) 1)) carol comment1"
proof -
  have h1: "is_authenticated (Account carol)" by (simp add: carol_def)
  have h2: "distinct (map blog_like_key (blog_likes db3))"
    by (simp add: db3_def blog_like_key_def)
  have h3: "distinct (map comment_like_key (comment_likes db3))"
    by (simp add: db3_def comment_like_key_def)
  show ?thesis
    using toggle_like_twice [OF h1 h2 h3, of 20 1 21 carol blog1 1 comment1]
      h1 h2 h3 db3_values
    by simp
qed

section \<open>Deleting posts and comments\<close>

text \<open>
  C7. When its author deletes post P: no post with P's id, no comment of P and no like
  row of P is left; for every comment that belonged to P no like row of it is left; and
  every comment like row that is left, and pointed to a stored comment before, points to
  a comment that is still stored.
\<close>

theorem delete_blog_cascade:
  assumes "is_authenticated (Account me)"
    and "get_blog d i = Some b"
    and "is_author d b me"
  shows "(\<forall>x \<in> set (blogs (fst (delete_blog d (Account me) i))). b_id x \<noteq> b_id b)
       \<and> (\<forall>c \<in> set (comments (fst (delete_blog d (Account me) i))). c_blog_id c \<noteq> b_id b)
       \<and> (\<forall>r \<in> set (blog_likes (fst (delete_blog d (Account me) i))). bl_blog_id r \<noteq> b_id b)
       \<and> (\<forall>c \<in> set (comments d). c_blog_id c = b_id b \<longrightarrow>
            (\<forall>r \<in> set (comment_likes (fst (delete_blog d (Account me) i))).
               cl_comment_id r \<noteq> c_id c))
       \<and> (\<forall>r \<in> set (comment_likes (fst (delete_blog d (Account me) i))).
            cl_comment_id r \<in> c_id ` set (comments d) \<longrightarrow>
            cl_comment_id r \<in> c_id ` set (comments (fst (delete_blog d (Account me) i))))"
proof -
  have d': "fst (delete_blog d (Account me) i) = session_delete_blog d b"
    using assms by (simp add: delete_blog_def)
  show ?thesis
    unfolding d' by (auto simp: blog_comments_def image_iff)
qed

theorem delete_blog_cascade_witness:
  "is_authenticated (Account alice) \<and> get_blog db3 1 = Some blog1 \<and> is_author db3 blog1 alice
   \<and> comments db3 = [comment1] \<and> c_blog_id comment1 = b_id blog1
   \<and> length (blog_likes db3) = 2 \<and> length (comment_likes db3) = 1
   \<and> blogs (fst (delete_blog db3 (Account alice) 1)) = [mk_blog 2 True 20 2]
   \<and> comments (fst (delete_blog db3 (Account alice) 1)) = []
   \<and> blog_likes (fst (delete_blog db3 (Account alice) 1)) = []
   \<and> comment_likes (fst (delete_blog db3 (Account alice) 1)) = []"
proof -
  have d': "fst (delete_blog db3 (Account alice) 1) = session_delete_blog db3 blog1"
    using users_active(1) db3_get(1) db3_author by (simp add: delete_blog_def)
  have vals: "comments db3 = [comment1]" "c_blog_id comment1 = b_id blog1"
    "length (blog_likes db3) = 2" "length (comment_likes db3) = 1"
    "blogs (session_delete_blog db3 blog1) = [mk_blog 2 True 20 2]"
    "comments (session_delete_blog db3 blog1) = []"
    "blog_likes (session_delete_blog db3 blog1) = []"
    "comment_likes (session_delete_blog db3 blog1) = []"
    by (simp_all add: blog_comments_def db3_def blog1_def comment1_def mk_blog_def)
  show ?thesis
    using delete_blog_cascade [OF users_active(1) db3_get(1) db3_author]
      users_active(1) db3_get(1) db3_author vals d'
    by simp
qed

text \<open>
  C8. For an authenticated actor A and a stored comment C whose post is stored: when
  the store accepts the delete, the operation succeeds exactly when A is C's author or
  the author of C's post, and then C is gone; for any other actor the answer is 403
  "Unauthorized" and the store is unchanged, whether or not the store would accept.
\<close>

theorem delete_comment_authorised:
  assumes "is_authenticated (Account me)"
    and "get_comment d i = Some c"
    and "comment_blog d c = Some b"
  shows "(snd (delete_comment d True (Account me) i) = Comment_deleted
            \<longleftrightarrow> u_id me = c_user_id c \<or> u_id me = b_user_id b)
       \<and> (u_id me = c_user_id c \<or> u_id me = b_user_id b \<longrightarrow>
            delete_comment d True (Account me) i = (session_delete_comment d c, Comment_deleted)
            \<and> get_comment (session_delete_comment d c) i = None
            \<and> delete_comment d False (Account me) i = (d, Delete_failed))
       \<and> (u_id me \<noteq> c_user_id c \<and> u_id me \<noteq> b_user_id b \<longrightarrow>
            delete_comment d commit_ok (Account me) i = (d, Json_error ''Unauthorized'' 403))"
proof -
  have i: "c_id c = i" using assms(2) by (auto simp: get_comment_def dest: find_Some_set)
  have gone: "get_comment (session_delete_comment d c) i = None"
    by (simp add: get_comment_def find_None_iff i)
  show ?thesis
    using assms gone by (simp add: delete_comment_def)
qed

theorem delete_comment_authorised_witness:
  "is_authenticated (Account alice) \<and> is_authenticated (Account bob)
   \<and> is_authenticated (Account carol)
   \<and> get_comment db3 1 = Some comment1 \<and> comment_blog db3 comment1 = Some blog1
   \<and> snd (delete_comment db3 True (Account bob) 1) = Comment_deleted
   \<and> snd (delete_comment db3 True (Account alice) 1) = Comment_deleted
   \<and> get_comment (fst (delete_comment db3 True (Account alice) 1)) 1 = None
   \<and> delete_comment db3 True (Account carol) 1 = (db3, Json_error ''Unauthorized'' 403)"
proof -
  have ids: "u_id bob = c_user_id comment1" "u_id alice = b_user_id blog1"
    "u_id carol \<noteq> c_user_id comment1" "u_id carol \<noteq> b_user_id blog1"
    by (simp_all add: alice_def bob_def carol_def comment1_def blog1_def mk_blog_def)
  show ?thesis
    using delete_comment_authorised [OF users_active(1) db3_get(2,3), of True]
      delete_comment_authorised [OF users_active(2) db3_get(2,3), of True]
      delete_comment_authorised [OF users_active(3) db3_get(2,3), of True]
      users_active db3_get(2,3) ids
    by simp
qed

section \<open>Like counts\<close>

text \<open>
  C6. In every reachable store, \<open>likes_count\<close> of a post and of a comment is the number
  of distinct users that hold a like row for it. The count is a function of the store
  (a post and a comment have no counter column), and the equality holds again after
  \<open>like_blog\<close> and \<open>like_comment\<close> by a stored user on a stored target, and after
  \<open>unlike_blog\<close> and \<open>unlike_comment\<close>.
\<close>

theorem likes_count_live:
  assumes "reachable d"
  shows "likes_count d b = card (blog_likers d b)
       \<and> comment_likes_count d c = card (comment_likers d c)
       \<and> (u \<in> set (users d) \<and> x \<in> set (blogs d) \<longrightarrow>
            likes_count (like_blog d now u x) b = card (blog_likers (like_blog d now u x) b))
       \<and> likes_count (unlike_blog d u x) b = card (blog_likers (unlike_blog d u x) b)
       \<and> (u \<in> set (users d) \<and> y \<in> set (comments d) \<longrightarrow>
            comment_likes_count (like_comment d now u y) c =
              card (comment_likers (like_comment d now u y) c))
       \<and> comment_likes_count (unlike_comment d u y) c =
           card (comment_likers (unlike_comment d u y) c)"
proof -
  have i: "integrity d" using assms by (rule reachable_integrity)
  have "integrity (like_blog d now u x)" if "u \<in> set (users d)" "x \<in> set (blogs d)"
    using that i by (simp add: like_blog_integrity)
  moreover have "integrity (like_comment d now u y)"
    if "u \<in> set (users d)" "y \<in> set (comments d)"
    using that i by (simp add: like_comment_integrity)
  moreover note unlike_blog_integrity [OF i, of u x] unlike_comment_integrity [OF i, of u y]
  ultimately show ?thesis
    using i by (simp add: likes_count_card comment_likes_count_card)
qed

theorem likes_count_live_witness:
  "reachable db_run \<and> alice \<in> set (users db_run) \<and> blog1 \<in> set (blogs db_run)
   \<and> likes_count db_run blog1 = 1 \<and> card (blog_likers db_run blog1) = 1
   \<and> likes_count (unlike_blog db_run alice blog1) blog1 = 0
   \<and> card (blog_likers (unlike_blog db_run alice blog1) blog1) = 0
   \<and> likes_count (like_blog (unlike_blog db_run alice blog1) 12 alice blog1) blog1 = 1"
proof -
  have vals: "alice \<in> set (users db_run)" "blog1 \<in> set (blogs db_run)"
    "card (blog_likers db_run blog1) = 1"
    "card (blog_likers (unlike_blog db_run alice blog1) blog1) = 0"
    "likes_count (like_blog (unlike_blog db_run alice blog1) 12 alice blog1) blog1 = 1"
    by (simp_all add: db_run_eq blog_likers_def likes_count_sum has_liked_blog_iff
          unlike_blog_def like_blog_def alice_def blog1_def mk_blog_def)
  show ?thesis
    using likes_count_live [OF db_run_reachable, of blog1 undefined alice blog1 12 undefined]
      db_run_reachable vals
    by simp
qed

text \<open>
  C9. In every reachable store, a successful \<open>add_comment\<close> (authenticated caller,
  stored post, valid form) answers with \<open>likes_count\<close> 0 for the new comment, the new
  comment is stored under the reported id, and its \<open>likes_count\<close> in the new store is
  0: no like row points to it.
\<close>

theorem add_comment_likes_count_zero:
  assumes "reachable d"
    and "is_authenticated (Account me)"
    and "get_blog d i = Some b"
    and "cf_valid form"
  shows "(let new = \<lparr>c_id = next_id (map c_id (comments d)), c_content = cf_content form,
                     c_date_created = now, c_user_id = u_id me, c_blog_id = b_id b\<rparr>;
              d' = fst (add_comment d now (Account me) i form)
          in snd (add_comment d now (Account me) i form) =
               Comment_added \<lparr>cj_id = c_id new, cj_content = cf_content form,
                              cj_likes_count = 0\<rparr>
             \<and> comments d' = comments d @ [new]
             \<and> get_comment d' (c_id new) = Some new
             \<and> comment_likes_count d' new = 0
             \<and> comment_likers d' new = {})"
proof -
  define new where "new = \<lparr>c_id = next_id (map c_id (comments d)), c_content = cf_content form,
      c_date_created = now, c_user_id = u_id me, c_blog_id = b_id b\<rparr>"
  define d' where "d' = fst (add_comment d now (Account me) i form)"
  have res: "add_comment d now (Account me) i form =
      (d\<lparr>comments := comments d @ [new]\<rparr>,
       Comment_added \<lparr>cj_id = c_id new, cj_content = cf_content form, cj_likes_count = 0\<rparr>)"
    using assms(2-4) by (simp add: add_comment_def Let_def new_def)
  have d': "d' = d\<lparr>comments := comments d @ [new]\<rparr>" by (simp add: d'_def res)
  have fresh: "c_id new \<notin> c_id ` set (comments d)"
    using next_id_fresh [of "map c_id (comments d)"] by (simp add: new_def)
  have refs: "cl_comment_id ` set (comment_likes d) \<subseteq> c_id ` set (comments d)"
    using reachable_integrity [OF assms(1)] by (simp add: integrity_def refs_ok_def)
  have none: "\<forall>r \<in> set (comment_likes d). cl_comment_id r \<noteq> c_id new"
    using fresh refs by (metis image_eqI subsetD)
  have g: "get_comment d' (c_id new) = Some new"
  proof -
    have "\<forall>x \<in> set (comments d). c_id x \<noteq> c_id new" using fresh by (metis imageI)
    then show ?thesis by (simp add: get_comment_def d' find_append_fresh)
  qed
  have a: "comment_likes_count d' new = 0"
    using none by (simp add: comment_likes_count_sum d')
  have b: "comment_likers d' new = {}"
    using none by (simp add: comment_likers_def d' filter_empty_conv)
  have "snd (add_comment d now (Account me) i form) =
          Comment_added \<lparr>cj_id = c_id new, cj_content = cf_content form, cj_likes_count = 0\<rparr>
        \<and> comments d' = comments d @ [new]
        \<and> get_comment d' (c_id new) = Some new
        \<and> comment_likes_count d' new = 0
        \<and> comment_likers d' new = {}"
    using res d' g a b by simp
  then show ?thesis unfolding d'_def new_def Let_def .
qed

theorem add_comment_likes_count_zero_witness:
  "reachable db_run \<and> is_authenticated (Account alice) \<and> get_blog db_run 1 = Some blog1
   \<and> cf_valid \<lparr>cf_valid = True, cf_content = ''hi''\<rparr>
   \<and> snd (add_comment db_run 20 (Account alice) 1 \<lparr>cf_valid = True, cf_content = ''hi''\<rparr>) =
       Comment_added \<lparr>cj_id = 1, cj_content = ''hi'', cj_likes_count = 0\<rparr>
   \<and> comment_likes_count
         (fst (add_comment db_run 20 (Account alice) 1 \<lparr>cf_valid = True, cf_content = ''hi''\<rparr>))
         \<lparr>c_id = 1, c_content = ''hi'', c_date_created = 20, c_user_id = 1, c_blog_id = 1\<rparr> = 0"
proof -
  have g: "get_blog db_run 1 = Some blog1"
    by (simp add: db_run_eq get_blog_def blog1_def mk_blog_def)
  have v: "cf_valid \<lparr>cf_valid = True, cf_content = ''hi''\<rparr>" by simp
  have n: "next_id (map c_id (comments db_run)) = 1" "u_id alice = 1" "b_id blog1 = 1"
    by (simp_all add: db_run_eq next_id_def alice_def blog1_def mk_blog_def)
  show ?thesis
    using add_comment_likes_count_zero [OF db_run_reachable users_active(1) g v, of 20]
      db_run_reachable users_active(1) g n
    by (simp add: Let_def)
qed

section \<open>Home feed\<close>

text \<open>
  C2 (amended). For every authenticated viewer V and stored posts with pairwise distinct
  creation dates, whatever the order in which the set of posts is iterated: the recent
  part of the home feed is the public posts together with the 3 newest private posts
  authored by V or by a user V follows, newest first, cut to 6.
\<close>

theorem index_recent_authenticated:
  assumes "is_authenticated (Account me)"
    and "\<forall>xs. set (list_of_set xs) = set xs \<and> distinct (list_of_set xs)"
    and "distinct (map b_date_created (blogs d))"
  shows "snd (index d list_of_set (Account me)) =
           take 6 (date_desc ([b \<leftarrow> blogs d. is_public b] @
                              take 3 (date_desc [b \<leftarrow> blogs d. visible_private d me b])))"
proof -
  define key :: "blog \<Rightarrow> int" where "key = (\<lambda>b. - b_date_created b)"
  define P where "P = [b \<leftarrow> blogs d. is_public b]"
  define V where "V = [b \<leftarrow> blogs d. visible_private d me b]"
  define P6 where "P6 = take 6 (sort_key key P)"
  define V3 where "V3 = take 3 (sort_key key V)"
  have dd: "date_desc = sort_key key"
    by (simp add: fun_eq_iff date_desc_def key_def)
  have Veq: "[b \<leftarrow> blogs d. b_user_id b \<in> set (map u_id (map fst (followed d me)) @ [u_id me])
                \<and> \<not> is_public b] = V"
    unfolding V_def by (rule filter_cong) (simp_all only: visible_private_iff)
  have "snd (index d list_of_set (Account me)) =
      take 6 (sort_key key (list_of_set (P6 @ take 3 (sort_key key
        [b \<leftarrow> blogs d. b_user_id b \<in> set (map u_id (map fst (followed d me)) @ [u_id me])
                \<and> \<not> is_public b]))))"
    using assms(1) by (simp add: index_def Let_def dd P6_def P_def image_image)
  then have code: "snd (index d list_of_set (Account me)) =
      take 6 (sort_key key (list_of_set (P6 @ V3)))"
    unfolding Veq V3_def .
  have dist: "distinct (blogs d)" using assms(3) by (simp add: distinct_map)
  have inj: "inj_on key (set (blogs d))"
    using assms(3) by (auto simp: key_def distinct_map inj_on_def)
  have sub: "set P \<subseteq> set (blogs d)" "set V \<subseteq> set (blogs d)"
    "set P6 \<subseteq> set P" "set V3 \<subseteq> set V"
    using set_take_subset [of 6 "sort_key key P"] set_take_subset [of 3 "sort_key key V"]
    by (auto simp: P_def V_def P6_def V3_def)
  have disj: "set P \<inter> set V = {}"
    by (auto simp: P_def V_def visible_private_def)
  have dP: "distinct P" "distinct V" "distinct P6" "distinct V3"
    using dist by (simp_all add: P_def V_def P6_def V3_def)
  have d1: "distinct (P6 @ V3)" "distinct (V3 @ P6)" "distinct (V3 @ P)" "distinct (P @ V3)"
    using dP sub disj by auto
  have "set P6 \<union> set V3 \<subseteq> set (blogs d)" "set V3 \<union> set P \<subseteq> set (blogs d)"
    using sub by auto
  then have "inj_on key (set P6 \<union> set V3)" "inj_on key (set V3 \<union> set P)"
    using inj by (blast intro: inj_on_subset)+
  then have i1: "inj_on key (set (list_of_set (P6 @ V3)))" "inj_on key (set (V3 @ P))"
    using assms(2) by simp_all
  have "sort_key key (list_of_set (P6 @ V3)) = sort_key key (V3 @ P6)"
    by (rule sort_key_unique [OF i1(1)]) (use assms(2) d1 in auto)
  then have "take 6 (sort_key key (list_of_set (P6 @ V3))) = take 6 (sort_key key (V3 @ P6))"
    by simp
  also have "\<dots> = take 6 (sort_key key (V3 @ P))"
    unfolding P6_def by (rule take_sort_key_append [symmetric])
  also have "sort_key key (V3 @ P) = sort_key key (P @ V3)"
    by (rule sort_key_unique [OF i1(2)]) (use d1 in auto)
  finally show ?thesis
    unfolding code dd P_def V3_def V_def .
qed

text \<open>
  The recent feed as specified does not cap the private posts: for a viewer with four
  private posts of her own and no public post in the store it has four entries, the
  handler's feed has three.
\<close>

theorem recent_feed_counterexample:
  "snd (index db2 remdups (Account alice)) =
     [mk_blog 4 False 4 1, mk_blog 3 False 3 1, mk_blog 2 False 2 1]
   \<and> spec_recent db2 alice =
     [mk_blog 4 False 4 1, mk_blog 3 False 3 1, mk_blog 2 False 2 1, mk_blog 1 False 1 1]
   \<and> snd (index db2 remdups (Account alice)) \<noteq> spec_recent db2 alice"
proof -
  have a: "snd (index db2 remdups (Account alice)) =
     [mk_blog 4 False 4 1, mk_blog 3 False 3 1, mk_blog 2 False 2 1]"
    by (simp add: index_def Let_def date_desc_def followed_def db2_def alice_def bob_def
          mk_blog_def)
  have b: "spec_recent db2 alice =
     [mk_blog 4 False 4 1, mk_blog 3 False 3 1, mk_blog 2 False 2 1, mk_blog 1 False 1 1]"
    by (simp add: spec_recent_def visible_private_def date_desc_def db2_def alice_def
          bob_def mk_blog_def)
  show ?thesis unfolding a b by simp
qed

theorem index_recent_authenticated_witness:
  "is_authenticated (Account carol)
   \<and> (\<forall>xs :: blog list. set (remdups xs) = set xs \<and> distinct (remdups xs))
   \<and> distinct (map b_date_created (blogs db3))
   \<and> snd (index db3 remdups (Account carol)) = [mk_blog 2 True 20 2, blog1]"
proof -
  have h1: "is_authenticated (Account carol)" by (simp add: carol_def)
  have h2: "\<forall>xs :: blog list. set (remdups xs) = set xs \<and> distinct (remdups xs)" by simp
  have h3: "distinct (map b_date_created (blogs db3))"
    by (simp add: db3_def blog1_def mk_blog_def)
  have v: "[b \<leftarrow> blogs db3. visible_private db3 carol b] = [blog1]"
    "[b \<leftarrow> blogs db3. is_public b] = [mk_blog 2 True 20 2]"
    by (simp_all add: visible_private_def author_def is_following_iff db3_def blog1_def
          mk_blog_def alice_def bob_def carol_def)
  have s: "take 6 (date_desc ([mk_blog 2 True 20 2] @ take 3 (date_desc [blog1]))) =
      [mk_blog 2 True 20 2, blog1]"
    by (simp add: date_desc_def blog1_def mk_blog_def)
  show ?thesis
    using index_recent_authenticated [OF h1 h2 h3] h1 h2 h3 unfolding v s by blast
qed

end
